theory Spec2Isabelle
  imports Main "HOL-Library.Sublist"
begin

section \<open>Go strings and the library functions the parser calls\<close>

text \<open>
  A Go string is a sequence of bytes: \<^typ>\<open>string\<close> (a list of 8-bit characters).
  Go's \<open>int\<close> is taken as the 64-bit two's complement integer of the amd64 and arm64
  ports; it is modelled as \<^typ>\<open>int\<close> with the wrap-around written out in \<open>incr\<close>
  (the only arithmetic the parser performs is \<open>n++\<close>).
\<close>

abbreviation NL :: char where "NL \<equiv> CHR 0x0A"
abbreviation DQ :: char where "DQ \<equiv> CHR 0x22"
abbreviation BSL :: char where "BSL \<equiv> CHR 0x5C"

definition maxInt :: int where
  "maxInt = 9223372036854775807"

definition minInt :: int where
  "minInt = - 9223372036854775808"

text \<open>\<open>n++\<close> on a 64-bit \<open>int\<close>.\<close>

definition incr :: "int \<Rightarrow> int" where
  "incr n = (if n = maxInt then minInt else n + 1)"

text \<open>\<open>strings.HasPrefix(s, p)\<close>, \<open>strings.TrimPrefix(s, p)\<close>, \<open>strings.TrimSuffix(s, p)\<close>.\<close>

definition HasPrefix :: "string \<Rightarrow> string \<Rightarrow> bool" where
  "HasPrefix s p = (take (length p) s = p)"

definition HasSuffix :: "string \<Rightarrow> string \<Rightarrow> bool" where
  "HasSuffix s p = (length p \<le> length s \<and> drop (length s - length p) s = p)"

definition TrimPrefix :: "string \<Rightarrow> string \<Rightarrow> string" where
  "TrimPrefix s p = (if HasPrefix s p then drop (length p) s else s)"

definition TrimSuffix :: "string \<Rightarrow> string \<Rightarrow> string" where
  "TrimSuffix s p = (if HasSuffix s p then take (length s - length p) s else s)"

text \<open>
  \<open>strings.Split(s, sep)\<close> for a non-empty separator: the pieces between the
  non-overlapping occurrences of \<open>sep\<close>, found from the left. \<open>cur\<close> holds the
  bytes of the piece being read, newest first.
\<close>

fun SplitFrom :: "string \<Rightarrow> string \<Rightarrow> string \<Rightarrow> string list" where
  "SplitFrom sep cur [] = [rev cur]"
| "SplitFrom sep cur (c # cs) =
     (if sep \<noteq> [] \<and> HasPrefix (c # cs) sep
      then rev cur # SplitFrom sep [] (drop (length sep - 1) cs)
      else SplitFrom sep (c # cur) cs)"

definition Split :: "string \<Rightarrow> string \<Rightarrow> string list" where
  "Split s sep = SplitFrom sep [] s"

subsection \<open>\<open>strconv.Atoi\<close>\<close>

definition isDigit :: "char \<Rightarrow> bool" where
  "isDigit c = (48 \<le> (of_char c :: int) \<and> (of_char c :: int) \<le> 57)"

definition digitVal :: "char \<Rightarrow> int" where
  "digitVal c = of_char c - 48"

definition decimal :: "string \<Rightarrow> int" where
  "decimal ds = foldl (\<lambda>n c. 10 * n + digitVal c) 0 ds"

text \<open>The \<open>Err\<close> field of a \<open>*strconv.NumError\<close>.\<close>

datatype NumError = ErrSyntax | ErrRange

text \<open>
  \<open>strconv.Atoi(s)\<close>: an optional sign, then one or more decimal digits. The value
  returned beside a syntax error is 0; beside a range error it is the nearest
  representable \<open>int\<close>.
\<close>

definition Atoi :: "string \<Rightarrow> int \<times> NumError option" where
  "Atoi s =
    (let neg = (s \<noteq> [] \<and> hd s = CHR ''-'');
         ds = (if s \<noteq> [] \<and> (hd s = CHR ''-'' \<or> hd s = CHR ''+'') then tl s else s)
     in if ds = [] \<or> \<not> list_all isDigit ds then (0, Some ErrSyntax)
        else let n = decimal ds
             in if \<not> neg \<and> n > maxInt then (maxInt, Some ErrRange)
                else if neg \<and> n > - minInt then (minInt, Some ErrRange)
                else (if neg then - n else n, None))"

subsection \<open>The three regular expressions\<close>

text \<open>
  \<open>reinReg = ^index .+$\<close> and \<open>rempReg = ^(-|\+){3} .+$\<close>, as used through
  \<open>MatchString\<close>: \<open>.\<close> matches every byte but a newline, \<open>^\<close> and \<open>$\<close> the two
  ends of the text.
\<close>

definition reinReg_MatchString :: "string \<Rightarrow> bool" where
  "reinReg_MatchString s =
     (HasPrefix s ''index '' \<and> drop 6 s \<noteq> [] \<and> NL \<notin> set (drop 6 s))"

definition rempReg_MatchString :: "string \<Rightarrow> bool" where
  "rempReg_MatchString s =
     (length s \<ge> 5 \<and> list_all (\<lambda>c. c = CHR ''-'' \<or> c = CHR ''+'') (take 3 s)
      \<and> s ! 3 = CHR '' '' \<and> NL \<notin> set (drop 4 s))"

text \<open>
  \<open>hunkHeaderReg = @@ \-(\d+),?(\d+)? \+(\d+),?(\d+)? @@ ?(.+)?\<close>.

  \<open>matchHunkHeaderAt s\<close> is the match that begins at the first byte of \<open>s\<close>, as the
  list of the whole match and the five groups (an unset group is the empty string, as
  \<open>FindStringSubmatch\<close> returns it). Every quantifier is greedy and the match is
  deterministic: \<open>(\d+)\<close> takes the whole run of digits, since giving a digit back to
  the optional second group leaves the same two bytes to match \<open>" +"\<close> (or \<open>" @@"\<close>)
  and the engine prefers the longer first group; the optional comma is taken when it
  is there; after \<open>" @@"\<close> the rest always matches, one space being skipped and
  group 5 taking every byte up to a newline.
\<close>

definition optCount :: "string \<Rightarrow> string \<times> string" where
  "optCount s =
     (case s of
        [] \<Rightarrow> ([], s)
      | c # t \<Rightarrow> if c = CHR '','' then (takeWhile isDigit t, dropWhile isDigit t) else ([], s))"

definition matchHunkHeaderAt :: "string \<Rightarrow> string list option" where
  "matchHunkHeaderAt s =
    (if \<not> HasPrefix s ''@@ -'' then None
     else let r1 = drop 4 s; a = takeWhile isDigit r1; r2 = dropWhile isDigit r1
     in if a = [] then None
     else let (b, r3) = optCount r2
     in if \<not> HasPrefix r3 '' +'' then None
     else let r4 = drop 2 r3; c = takeWhile isDigit r4; r5 = dropWhile isDigit r4
     in if c = [] then None
     else let (d, r6) = optCount r5
     in if \<not> HasPrefix r6 '' @@'' then None
     else let r7 = drop 3 r6;
              r8 = (if HasPrefix r7 '' '' then drop 1 r7 else r7);
              m5 = takeWhile (\<lambda>x. x \<noteq> NL) r8;
              m0 = take (length s - length (dropWhile (\<lambda>x. x \<noteq> NL) r8)) s
     in Some [m0, a, b, c, d, m5])"

text \<open>
  \<open>hunkHeaderReg.FindStringSubmatch(l)\<close>: the pattern is not anchored, so the match
  is the one at the leftmost byte where one begins; \<open>nil\<close> (here the empty list) when
  there is none.
\<close>

fun hunkHeaderReg_FindStringSubmatch :: "string \<Rightarrow> string list" where
  "hunkHeaderReg_FindStringSubmatch [] = []"
| "hunkHeaderReg_FindStringSubmatch (c # cs) =
     (case matchHunkHeaderAt (c # cs) of
        Some m \<Rightarrow> m
      | None \<Rightarrow> hunkHeaderReg_FindStringSubmatch cs)"

subsection \<open>UTF-8 and \<open>strconv.Unquote\<close>\<close>

text \<open>
  A rune and the value of a byte are integers. \<open>utf8.DecodeRuneInString\<close> returns the rune at the
  head of the string and its width; a byte that does not start a well-formed encoding
  (overlong forms, surrogates and values beyond \<open>U+10FFFF\<close> included) decodes to
  \<open>RuneError\<close> with width 1.
\<close>

definition RuneError :: int where
  "RuneError = 0xFFFD"

definition byte :: "char \<Rightarrow> int" where
  "byte c = of_char c"

definition inRange :: "int \<Rightarrow> int \<Rightarrow> char \<Rightarrow> bool" where
  "inRange lo hi c = (lo \<le> byte c \<and> byte c \<le> hi)"

definition cont :: "char \<Rightarrow> int" where
  "cont c = byte c - 0x80"

text \<open>
  For a lead byte \<open>b\<close> in \<open>0xC2..0xF4\<close>: the length of the sequence it starts and the
  range its second byte must lie in (the tables \<open>first\<close> and \<open>acceptRanges\<close>).
\<close>

definition seqLen :: "int \<Rightarrow> nat" where
  "seqLen b = (if b < 0xE0 then 2 else if b < 0xF0 then 3 else 4)"

definition acceptLo :: "int \<Rightarrow> int" where
  "acceptLo b = (if b = 0xE0 then 0xA0 else if b = 0xF0 then 0x90 else 0x80)"

definition acceptHi :: "int \<Rightarrow> int" where
  "acceptHi b = (if b = 0xED then 0x9F else if b = 0xF4 then 0x8F else 0xBF)"

definition DecodeRuneInString :: "string \<Rightarrow> int \<times> nat" where
  "DecodeRuneInString s =
    (case s of
       [] \<Rightarrow> (RuneError, 0)
     | s0 # t \<Rightarrow>
        let b = byte s0 in
        if b < 0x80 then (b, 1)
        else if b < 0xC2 \<or> 0xF4 < b then (RuneError, 1)
        else if length s < seqLen b then (RuneError, 1)
        else if \<not> inRange (acceptLo b) (acceptHi b) (t ! 0) then (RuneError, 1)
        else if seqLen b = 2 then ((b - 0xC0) * 64 + cont (t ! 0), 2)
        else if \<not> inRange 0x80 0xBF (t ! 1) then (RuneError, 1)
        else if seqLen b = 3 then ((b - 0xE0) * 4096 + cont (t ! 0) * 64 + cont (t ! 1), 3)
        else if \<not> inRange 0x80 0xBF (t ! 2) then (RuneError, 1)
        else ((b - 0xF0) * 262144 + cont (t ! 0) * 4096 + cont (t ! 1) * 64
                + cont (t ! 2), 4))"

text \<open>\<open>utf8.ValidString\<close>: no byte of the string decodes to an encoding error.\<close>

fun ValidString :: "string \<Rightarrow> bool" where
  "ValidString [] = True"
| "ValidString (c # cs) =
     (case DecodeRuneInString (c # cs) of
        (r, width) \<Rightarrow>
          if r = RuneError \<and> width = 1 then False else ValidString (drop (width - 1) cs))"

text \<open>\<open>utf8.ValidRune\<close> and the bytes \<open>utf8.AppendRune\<close> appends.\<close>

definition ValidRune :: "int \<Rightarrow> bool" where
  "ValidRune r = ((0 \<le> r \<and> r < 0xD800) \<or> (0xDFFF < r \<and> r \<le> 0x10FFFF))"

definition AppendRune :: "int \<Rightarrow> string" where
  "AppendRune r0 =
    (if 0 \<le> r0 \<and> r0 \<le> 0x7F then [char_of r0]
     else if 0 \<le> r0 \<and> r0 \<le> 0x7FF
     then [char_of (0xC0 + r0 div 64), char_of (0x80 + r0 mod 64)]
     else let r = (if \<not> ValidRune r0 then RuneError else r0)
          in if r \<le> 0xFFFF
             then [char_of (0xE0 + r div 4096), char_of (0x80 + (r div 64) mod 64),
                   char_of (0x80 + r mod 64)]
             else [char_of (0xF0 + r div 262144), char_of (0x80 + (r div 4096) mod 64),
                   char_of (0x80 + (r div 64) mod 64), char_of (0x80 + r mod 64)])"

definition unhex :: "char \<Rightarrow> int option" where
  "unhex c =
    (if inRange 48 57 c then Some (byte c - 48)
     else if inRange 97 102 c then Some (byte c - 97 + 10)
     else if inRange 65 70 c then Some (byte c - 65 + 10)
     else None)"

fun hexValue :: "int \<Rightarrow> string \<Rightarrow> int option" where
  "hexValue v [] = Some v"
| "hexValue v (c # cs) =
     (case unhex c of None \<Rightarrow> None | Some x \<Rightarrow> hexValue (16 * v + x) cs)"

definition octal :: "char \<Rightarrow> int option" where
  "octal c = (if inRange 48 55 c then Some (byte c - 48) else None)"

text \<open>
  \<open>strconv.UnquoteChar(s, '"')\<close>: the first character or escape sequence of \<open>s\<close>, as
  (value, multibyte, tail); \<open>None\<close> is \<open>ErrSyntax\<close>. \<open>escaped c s\<close> is the part after
  a backslash, \<open>c\<close> the byte that follows it.
\<close>

definition escaped :: "char \<Rightarrow> string \<Rightarrow> (int \<times> bool \<times> string) option" where
  "escaped c s =
    (if c = CHR ''a'' then Some (7, False, s)
     else if c = CHR ''b'' then Some (8, False, s)
     else if c = CHR ''f'' then Some (12, False, s)
     else if c = CHR ''n'' then Some (10, False, s)
     else if c = CHR ''r'' then Some (13, False, s)
     else if c = CHR ''t'' then Some (9, False, s)
     else if c = CHR ''v'' then Some (11, False, s)
     else if c = CHR ''x'' \<or> c = CHR ''u'' \<or> c = CHR ''U'' then
       (let n = (if c = CHR ''x'' then 2 else if c = CHR ''u'' then 4 else 8 :: nat)
        in if length s < n then None
           else case hexValue 0 (take n s) of
                  None \<Rightarrow> None
                | Some v \<Rightarrow>
                    if c = CHR ''x'' then Some (v, False, drop n s)
                    else if \<not> ValidRune v then None
                    else Some (v, True, drop n s))
     else if inRange 48 55 c then
       (if length s < 2 then None
        else case (octal (s ! 0), octal (s ! 1)) of
               (Some x1, Some x2) \<Rightarrow>
                 (let v = ((byte c - 48) * 8 + x1) * 8 + x2
                  in if v > 255 then None else Some (v, False, drop 2 s))
             | _ \<Rightarrow> None)
     else if c = BSL then Some (92, False, s)
     else if c = DQ then Some (34, False, s)
     else None)"

definition UnquoteChar :: "string \<Rightarrow> (int \<times> bool \<times> string) option" where
  "UnquoteChar s =
    (case s of
       [] \<Rightarrow> None
     | c # t \<Rightarrow>
        if c = DQ then None
        else if byte c \<ge> 0x80 then
          (case DecodeRuneInString s of (r, width) \<Rightarrow> Some (r, True, drop width s))
        else if c \<noteq> BSL then Some (byte c, False, t)
        else (case t of [] \<Rightarrow> None | e # u \<Rightarrow> escaped e u))"

lemma DecodeRune_width: "s \<noteq> [] \<Longrightarrow> DecodeRuneInString s = (r, w) \<Longrightarrow> 0 < w"
  by (auto simp: DecodeRuneInString_def Let_def split: list.splits if_splits)

lemma escaped_tail: "escaped c s = Some (r, m, t) \<Longrightarrow> length t \<le> length s"
  by (auto simp: escaped_def Let_def split: if_splits option.splits)

lemma UnquoteChar_tail: "UnquoteChar s = Some (r, m, t) \<Longrightarrow> length t < length s"
  by (auto simp: UnquoteChar_def split: list.splits if_splits prod.splits
      dest: escaped_tail DecodeRune_width[rotated])

text \<open>
  The loop of \<open>strconv.Unquote\<close> over the bytes after the opening quote: it stops at
  the first unescaped double quote and returns the decoded bytes and what follows the
  quote. A newline, a bad escape sequence or the end of the input before a closing
  quote is \<open>ErrSyntax\<close>.
\<close>

function unquoteLoop :: "string \<Rightarrow> string \<Rightarrow> (string \<times> string) option" where
  "unquoteLoop [] buf = None"
| "unquoteLoop (c # cs) buf =
     (if c = DQ then Some (buf, cs)
      else if c = NL then None
      else case UnquoteChar (c # cs) of
             None \<Rightarrow> None
           | Some (r, multibyte, rem) \<Rightarrow>
               unquoteLoop rem
                 (buf @ (if r < 0x80 \<or> \<not> multibyte then [char_of r] else AppendRune r)))"
  by pat_completeness auto
termination
  by (relation "measure (\<lambda>(s, buf). length s)") (auto dest: UnquoteChar_tail)

text \<open>
  \<open>strconv.Unquote(in)\<close> for a string that starts with a double quote, the only
  form \<open>decodeOctalString\<close> passes (the single-quoted and back-quoted forms are not
  modelled). When the text up to the first closing quote has neither a backslash nor a
  newline and is valid UTF-8 it is returned as it is; otherwise the loop decodes it.
  Anything left after the closing quote is \<open>ErrSyntax\<close>.
\<close>

definition Unquote :: "string \<Rightarrow> string option" where
  "Unquote inp =
    (if length inp < 2 \<or> hd inp \<noteq> DQ \<or> DQ \<notin> set (tl inp) then None
     else let e = length (takeWhile (\<lambda>c. c \<noteq> DQ) (tl inp)) + 2
          in if BSL \<notin> set (take e inp) \<and> NL \<notin> set (take e inp)
                \<and> ValidString (take (e - 2) (tl inp))
             then (if drop e inp = [] then Some (take (e - 2) (tl inp)) else None)
             else case unquoteLoop (tl inp) [] of
                    None \<Rightarrow> None
                  | Some (out, rem) \<Rightarrow> if rem \<noteq> [] then None else Some out)"

section \<open>The data model\<close>

datatype FileMode = FileModeDeleted | FileModeModified | FileModeNew | FileModeRenamed

datatype DiffLineMode = DiffLineModeAdded | DiffLineModeRemoved | DiffLineModeUnchanged

text \<open>
  The field \<open>Mode\<close> of \<open>DiffLine\<close> is named \<open>LineMode\<close> here, since \<open>DiffFile\<close> has a
  field \<open>Mode\<close> too. A slice of pointers is the list of the values pointed to: a line is
  never written after it is appended, a hunk and a file only while they are the last
  element of their slice.
\<close>

record DiffLine =
  LineMode :: DiffLineMode
  Number :: int
  Content :: string
  Position :: int

record DiffRange =
  Start :: int
  Length :: int
  Lines :: "DiffLine list"

record DiffHunk =
  HunkHeader :: string
  OrigRange :: DiffRange
  NewRange :: DiffRange
  WholeRange :: DiffRange

record DiffFile =
  DiffHeader :: string
  Mode :: FileMode
  OrigName :: string
  NewName :: string
  Hunks :: "DiffHunk list"
  SimilarityIndex :: int

record Diff =
  Files :: "DiffFile list"
  Raw :: string
  PullID :: nat

section \<open>The parser\<close>

text \<open>
  What a call returns: a value, an error, or a run-time panic (the only one \<open>Parse\<close>
  can reach is the nil dereference of \<open>file\<close> before any \<open>diff\<close> line).
\<close>

datatype error =
    ErrParsingLine string
  | ErrAtoi string NumError
  | ErrLineMode string
  | ErrInvalidBinaryDiff

datatype 'a result = Ok 'a | Err error | Panic

definition lineMode :: "string \<Rightarrow> DiffLineMode result" where
  "lineMode line =
    (case line of
       [] \<Rightarrow> Panic
     | c # _ \<Rightarrow>
        if c = CHR '' '' then Ok DiffLineModeUnchanged
        else if c = CHR ''+'' then Ok DiffLineModeAdded
        else if c = CHR ''-'' then Ok DiffLineModeRemoved
        else Err (ErrLineMode line))"

definition oldFilePrefix :: string where "oldFilePrefix = ''--- ''"
definition newFilePrefix :: string where "newFilePrefix = ''+++ ''"
definition similarityPrefix :: string where "similarityPrefix = ''similarity index ''"
definition renameFromPrefix :: string where "renameFromPrefix = ''rename from ''"
definition renameToPrefix :: string where "renameToPrefix = ''rename to ''"
definition binaryPrefix :: string where "binaryPrefix = ''Binary files ''"

definition noNewlineMarker :: string where
  "noNewlineMarker = BSL # '' No newline at end of file''"

definition decodeOctalString :: "string \<Rightarrow> string" where
  "decodeOctalString s =
    (case Unquote ([DQ] @ s @ [DQ]) of None \<Rightarrow> s | Some s2 \<Rightarrow> s2)"

definition parseFileName :: "string \<Rightarrow> string" where
  "parseFileName filenameWithPrefix =
    (if HasPrefix filenameWithPrefix ''a/'' then TrimPrefix filenameWithPrefix ''a/''
     else if HasPrefix filenameWithPrefix ''b/'' then TrimPrefix filenameWithPrefix ''b/''
     else if HasPrefix filenameWithPrefix [DQ] then
       (let unquoted = TrimSuffix (TrimPrefix filenameWithPrefix [DQ]) [DQ]
        in if HasPrefix unquoted ''a/'' then decodeOctalString (TrimPrefix unquoted ''a/'')
           else if HasPrefix unquoted ''b/'' then decodeOctalString (TrimPrefix unquoted ''b/'')
           else decodeOctalString unquoted)
     else filenameWithPrefix)"

definition isSourceLine :: "string \<Rightarrow> bool" where
  "isSourceLine line =
    (if line = noNewlineMarker then False
     else if length line = 0
             \<or> (length line \<ge> 3 \<and> (take 3 line = ''---'' \<or> take 3 line = ''+++''))
     then False
     else True)"

text \<open>
  The local variables of \<open>Parse\<close> that live across iterations. \<open>file\<close> is nil
  until the first \<open>diff\<close> line and from then on points to the last element of
  \<open>diff.Files\<close>, so it is read as that element and \<open>file == nil\<close> as
  \<open>diffFiles = []\<close>. \<open>hunk\<close> is written only while \<open>inHunk\<close> holds, that is
  after a hunk header appended it to \<open>file.Hunks\<close> and before the next \<open>diff\<close> line
  replaced \<open>file\<close>, so it is read as the last hunk of the last file.
\<close>

record ParseState =
  diffFiles :: "DiffFile list"
  addedCount :: int
  removedCount :: int
  inHunk :: bool
  diffPosCount :: int
  firstHunkInFile :: bool

definition initState :: ParseState where
  "initState = \<lparr>diffFiles = [], addedCount = 0, removedCount = 0, inHunk = False,
                 diffPosCount = 0, firstHunkInFile = False\<rparr>"

fun mapLast :: "('a \<Rightarrow> 'a) \<Rightarrow> 'a list \<Rightarrow> 'a list" where
  "mapLast f [] = []"
| "mapLast f [x] = [f x]"
| "mapLast f (x # y # ys) = x # mapLast f (y # ys)"

text \<open>An assignment through \<open>file\<close>: a panic when \<open>file\<close> is nil.\<close>

definition withFile :: "(DiffFile \<Rightarrow> DiffFile) \<Rightarrow> ParseState \<Rightarrow> ParseState result" where
  "withFile f st =
    (if diffFiles st = [] then Panic else Ok (st\<lparr>diffFiles := mapLast f (diffFiles st)\<rparr>))"

text \<open>An assignment through \<open>hunk\<close>.\<close>

definition withHunk :: "(DiffHunk \<Rightarrow> DiffHunk) \<Rightarrow> ParseState \<Rightarrow> ParseState" where
  "withHunk g st =
     st\<lparr>diffFiles := mapLast (\<lambda>f. f\<lparr>Hunks := mapLast g (Hunks f)\<rparr>) (diffFiles st)\<rparr>"

definition appendLine :: "DiffLine \<Rightarrow> DiffRange \<Rightarrow> DiffRange" where
  "appendLine dl r = r\<lparr>Lines := Lines r @ [dl]\<rparr>"

text \<open>The header block of a file entry, read ahead from the \<open>diff\<close> line at \<open>idx\<close>.\<close>

definition diffHeader :: "string list \<Rightarrow> nat \<Rightarrow> string \<Rightarrow> string" where
  "diffHeader lines idx l =
    (if length lines > idx + 3 then
       (let index = lines ! (idx + 1);
            header = (if reinReg_MatchString index then l @ [NL] @ index else l);
            mp1 = lines ! (idx + 2);
            mp2 = lines ! (idx + 3)
        in if rempReg_MatchString mp1 \<and> rempReg_MatchString mp2
           then header @ [NL] @ mp1 @ [NL] @ mp2
           else header)
     else l)"

text \<open>The case of a hunk header line \<open>@@ ...\<close>.\<close>

definition hunkHeaderLine :: "ParseState \<Rightarrow> string \<Rightarrow> ParseState result" where
  "hunkHeaderLine st0 l =
    (let st = (if firstHunkInFile st0 then st0\<lparr>diffPosCount := 0, firstHunkInFile := False\<rparr>
               else st0)
     in if diffFiles st = [] then Panic
        else let m = hunkHeaderReg_FindStringSubmatch l
        in if length m < 5 then Err (ErrParsingLine l)
        else
         (case Atoi (m ! 1) of
            (_, Some e) \<Rightarrow> Err (ErrAtoi (m ! 1) e)
          | (a, None) \<Rightarrow>
             (case (if length (m ! 2) > 0 then Atoi (m ! 2) else (a, None)) of
                (_, Some e) \<Rightarrow> Err (ErrAtoi (m ! 2) e)
              | (b, None) \<Rightarrow>
                 (case Atoi (m ! 3) of
                    (_, Some e) \<Rightarrow> Err (ErrAtoi (m ! 3) e)
                  | (c, None) \<Rightarrow>
                     (case (if length (m ! 4) > 0 then Atoi (m ! 4) else (c, None)) of
                        (_, Some e) \<Rightarrow> Err (ErrAtoi (m ! 4) e)
                      | (d, None) \<Rightarrow>
                         (let hunk = \<lparr>HunkHeader = m ! 5,
                                OrigRange = \<lparr>Start = a, Length = b, Lines = []\<rparr>,
                                NewRange = \<lparr>Start = c, Length = d, Lines = []\<rparr>,
                                WholeRange = \<lparr>Start = 0, Length = 0, Lines = []\<rparr>\<rparr>
                          in Ok (st\<lparr>inHunk := True,
                                  diffFiles :=
                                    mapLast (\<lambda>f. f\<lparr>Hunks := Hunks f @ [hunk]\<rparr>) (diffFiles st),
                                  addedCount := c,
                                  removedCount := a\<rparr>)))))))"

text \<open>The case of a content line of the current hunk.\<close>

definition sourceLine :: "ParseState \<Rightarrow> string \<Rightarrow> ParseState result" where
  "sourceLine st l =
    (case lineMode l of
       Panic \<Rightarrow> Panic
     | Err e \<Rightarrow> Err e
     | Ok m \<Rightarrow>
        let line = \<lparr>LineMode = m, Number = 0, Content = drop 1 l, Position = diffPosCount st\<rparr>;
            newLine = line\<lparr>Number := addedCount st\<rparr>;
            origLine = line\<lparr>Number := removedCount st\<rparr>
        in (case m of
             DiffLineModeAdded \<Rightarrow>
               Ok ((withHunk (\<lambda>h. h\<lparr>NewRange := appendLine newLine (NewRange h),
                                      WholeRange := appendLine newLine (WholeRange h)\<rparr>) st)
                     \<lparr>addedCount := incr (addedCount st)\<rparr>)
           | DiffLineModeRemoved \<Rightarrow>
               Ok ((withHunk (\<lambda>h. h\<lparr>OrigRange := appendLine origLine (OrigRange h),
                                      WholeRange := appendLine origLine (WholeRange h)\<rparr>) st)
                     \<lparr>removedCount := incr (removedCount st)\<rparr>)
           | DiffLineModeUnchanged \<Rightarrow>
               Ok ((withHunk (\<lambda>h. h\<lparr>NewRange := appendLine newLine (NewRange h),
                                      WholeRange := appendLine newLine (WholeRange h),
                                      OrigRange := appendLine origLine (OrigRange h)\<rparr>) st)
                     \<lparr>addedCount := incr (addedCount st),
                      removedCount := incr (removedCount st)\<rparr>)))"

text \<open>
  The body of the loop of \<open>Parse\<close> for the line \<open>l = lines[idx]\<close>: the counter of
  physical lines is advanced, then the first case that applies is taken.
\<close>

definition step :: "string list \<Rightarrow> nat \<Rightarrow> ParseState \<Rightarrow> string \<Rightarrow> ParseState result" where
  "step lines idx st0 l =
    (let st = st0\<lparr>diffPosCount := incr (diffPosCount st0)\<rparr>
     in if HasPrefix l ''diff '' then
          Ok (st\<lparr>inHunk := False,
                  diffFiles := diffFiles st @
                    [\<lparr>DiffHeader = diffHeader lines idx l, Mode = FileModeModified,
                      OrigName = [], NewName = [], Hunks = [], SimilarityIndex = 0\<rparr>],
                  firstHunkInFile := True\<rparr>)
        else if l = ''+++ /dev/null'' then
          withFile (\<lambda>f. f\<lparr>Mode := FileModeDeleted\<rparr>) st
        else if l = ''--- /dev/null'' then
          withFile (\<lambda>f. f\<lparr>Mode := FileModeNew\<rparr>) st
        else if HasPrefix l similarityPrefix then
          withFile (\<lambda>f. f\<lparr>Mode := FileModeRenamed,
                           SimilarityIndex :=
                             fst (Atoi (TrimSuffix (TrimPrefix l similarityPrefix) ''%''))\<rparr>) st
        else if HasPrefix l oldFilePrefix then
          withFile (\<lambda>f. f\<lparr>OrigName := parseFileName (TrimPrefix l oldFilePrefix)\<rparr>) st
        else if HasPrefix l newFilePrefix then
          withFile (\<lambda>f. f\<lparr>NewName := parseFileName (TrimPrefix l newFilePrefix)\<rparr>) st
        else if HasPrefix l renameFromPrefix then
          withFile (\<lambda>f. f\<lparr>OrigName := parseFileName (TrimPrefix l renameFromPrefix)\<rparr>) st
        else if HasPrefix l renameToPrefix then
          withFile (\<lambda>f. f\<lparr>NewName := parseFileName (TrimPrefix l renameToPrefix)\<rparr>) st
        else if HasPrefix l binaryPrefix then
          (if diffFiles st = [] then Panic
           else let binaryDiffer = TrimSuffix (TrimPrefix l binaryPrefix) '' differ'';
                    fileNames = Split binaryDiffer '' and ''
                in if length fileNames \<noteq> 2 then Err ErrInvalidBinaryDiff
                   else withFile (\<lambda>f. f\<lparr>Mode := FileModeModified,
                                          OrigName := parseFileName (fileNames ! 0),
                                          NewName := parseFileName (fileNames ! 1)\<rparr>) st)
        else if HasPrefix l ''@@ '' then hunkHeaderLine st l
        else if inHunk st \<and> isSourceLine l then sourceLine st l
        else Ok st)"

text \<open>The loop over \<open>lines[idx:]\<close>; an error or a panic ends it.\<close>

fun loop :: "string list \<Rightarrow> nat \<Rightarrow> string list \<Rightarrow> ParseState \<Rightarrow> ParseState result" where
  "loop lines idx [] st = Ok st"
| "loop lines idx (l # ls) st =
     (case step lines idx st l of
        Ok st' \<Rightarrow> loop lines (Suc idx) ls st'
      | Err e \<Rightarrow> Err e
      | Panic \<Rightarrow> Panic)"

definition Parse :: "string \<Rightarrow> Diff result" where
  "Parse diffString =
    (let lines = Split diffString [NL]
     in case loop lines 0 lines initState of
          Ok st \<Rightarrow> Ok \<lparr>Files = diffFiles st, Raw = diffString, PullID = 0\<rparr>
        | Err e \<Rightarrow> Err e
        | Panic \<Rightarrow> Panic)"

text \<open>
  \<open>Changed\<close>: the map is built by appending, for every file that is not deleted, the
  numbers of the added lines of its hunks under the file's new name. A key is created
  by the first append under it.
\<close>

definition changedAppend :: "(string \<rightharpoonup> int list) \<Rightarrow> string \<Rightarrow> int \<Rightarrow> (string \<rightharpoonup> int list)" where
  "changedAppend m k n = m(k \<mapsto> (case m k of None \<Rightarrow> [] | Some ns \<Rightarrow> ns) @ [n])"

definition changedLines :: "(string \<rightharpoonup> int list) \<Rightarrow> string \<Rightarrow> DiffLine list \<Rightarrow> (string \<rightharpoonup> int list)" where
  "changedLines m k dls =
     foldl (\<lambda>m dl. if LineMode dl = DiffLineModeAdded then changedAppend m k (Number dl) else m)
       m dls"

definition changedFile :: "(string \<rightharpoonup> int list) \<Rightarrow> DiffFile \<Rightarrow> (string \<rightharpoonup> int list)" where
  "changedFile m f =
    (if Mode f = FileModeDeleted then m
     else foldl (\<lambda>m h. changedLines m (NewName f) (Lines (NewRange h))) m (Hunks f))"

definition Changed :: "Diff \<Rightarrow> (string \<rightharpoonup> int list)" where
  "Changed d = foldl changedFile Map.empty (Files d)"

section \<open>Views of a result used in the statements below\<close>

definition fileModeAndNames :: "DiffFile \<Rightarrow> FileMode \<times> string \<times> string" where
  "fileModeAndNames f = (Mode f, OrigName f, NewName f)"

definition hunkRanges :: "DiffHunk \<Rightarrow> (int \<times> int) \<times> (int \<times> int)" where
  "hunkRanges h =
     ((Start (OrigRange h), Length (OrigRange h)), (Start (NewRange h), Length (NewRange h)))"

text \<open>The numbers of the added lines of a file, over its hunks in order.\<close>

definition addedNumbers :: "DiffFile \<Rightarrow> int list" where
  "addedNumbers f =
     map Number (filter (\<lambda>dl. LineMode dl = DiffLineModeAdded)
       (concat (map (\<lambda>h. Lines (NewRange h)) (Hunks f))))"

text \<open>The value under a key of the map \<open>Changed\<close> builds, a missing key read as nil.\<close>

definition entry :: "(string \<rightharpoonup> int list) \<Rightarrow> string \<Rightarrow> int list" where
  "entry m k = (case m k of None \<Rightarrow> [] | Some ns \<Rightarrow> ns)"

text \<open>
  A malformed octal escape: a backslash and an octal digit \<open>d\<close> that are not followed by
  two more octal digits making a value of at most 255.
\<close>

definition malformedOctal :: "char \<Rightarrow> string \<Rightarrow> bool" where
  "malformedOctal d rest =
     (inRange 48 55 d \<and>
      (length rest < 2 \<or> octal (rest ! 0) = None \<or> octal (rest ! 1) = None
       \<or> ((byte d - 48) * 8 + the (octal (rest ! 0))) * 8 + the (octal (rest ! 1)) > 255))"

text \<open>
  A token with a malformed octal escape, read from the left as \<open>Unquote\<close> reads it: a
  backslash that starts an escape (it is not itself the byte a backslash before it
  escapes) is followed by an octal digit, and the escape is malformed. The byte after a
  backslash belongs to the escape and is skipped.
\<close>

fun malformedToken :: "string \<Rightarrow> bool" where
  "malformedToken [] = False"
| "malformedToken [c] = False"
| "malformedToken (c # d # rest) =
     (if c = BSL then malformedOctal d rest \<or> malformedToken rest
      else malformedToken (d # rest))"

text \<open>The lines whose case of the loop assigns a file name.\<close>

definition nameLine :: "string \<Rightarrow> bool" where
  "nameLine l = (HasPrefix l ''--- '' \<or> HasPrefix l ''+++ ''
                 \<or> HasPrefix l ''rename from '' \<or> HasPrefix l ''rename to '')"

text \<open>
  The lines that begin with a prefix one of the cases before the content-line case
  recognises, and the lines \<open>lineMode\<close> cannot classify.
\<close>

definition headerPrefixed :: "string \<Rightarrow> bool" where
  "headerPrefixed l =
     (HasPrefix l ''diff '' \<or> HasPrefix l similarityPrefix \<or> HasPrefix l renameFromPrefix
      \<or> HasPrefix l renameToPrefix \<or> HasPrefix l binaryPrefix \<or> HasPrefix l ''@@ '')"

definition unknownModeLine :: "string \<Rightarrow> bool" where
  "unknownModeLine l =
     (l \<noteq> [] \<and> hd l \<noteq> CHR '' '' \<and> hd l \<noteq> CHR ''+'' \<and> hd l \<noteq> CHR ''-''
      \<and> l \<noteq> noNewlineMarker)"

text \<open>
  A state in the middle of a hunk: one file, one hunk with no line yet.
\<close>

definition exampleState :: ParseState where
  "exampleState =
     \<lparr>diffFiles = [\<lparr>DiffHeader = ''diff --git a/q.sql b/q.sql'', Mode = FileModeModified,
                     OrigName = ''q.sql'', NewName = ''q.sql'',
                     Hunks = [\<lparr>HunkHeader = [],
                               OrigRange = \<lparr>Start = 1, Length = 2, Lines = []\<rparr>,
                               NewRange = \<lparr>Start = 1, Length = 1, Lines = []\<rparr>,
                               WholeRange = \<lparr>Start = 0, Length = 0, Lines = []\<rparr>\<rparr>],
                     SimilarityIndex = 0\<rparr>],
      addedCount = 1, removedCount = 1, inHunk = True, diffPosCount = 0,
      firstHunkInFile = False\<rparr>"

text \<open>
  The lines whose case of the loop assigns \<open>NewName\<close>, respectively \<open>OrigName\<close>, of
  the current file.
\<close>

definition assignsNewName :: "string \<Rightarrow> bool" where
  "assignsNewName l =
     ((HasPrefix l newFilePrefix \<and> l \<noteq> ''+++ /dev/null'') \<or> HasPrefix l renameToPrefix
      \<or> HasPrefix l binaryPrefix)"

definition assignsOrigName :: "string \<Rightarrow> bool" where
  "assignsOrigName l =
     ((HasPrefix l oldFilePrefix \<and> l \<noteq> ''--- /dev/null'') \<or> HasPrefix l renameFromPrefix
      \<or> HasPrefix l binaryPrefix)"

text \<open>The numbers of the lines of a range, in order.\<close>

definition lineNumbers :: "DiffRange \<Rightarrow> int list" where
  "lineNumbers r = map Number (Lines r)"

text \<open>
  The lines of a range are counted from its start: line \<open>k\<close> has the number \<open>Start\<close>
  after \<open>k\<close> increments. The range fits when its last number is at most the largest
  \<open>int\<close>, so that no increment wrapped around.
\<close>

definition counted :: "DiffRange \<Rightarrow> bool" where
  "counted r = (lineNumbers r = map (\<lambda>k. (incr ^^ k) (Start r)) [0..<length (Lines r)])"

definition fitsInt :: "DiffRange \<Rightarrow> bool" where
  "fitsInt r = (Start r + int (length (Lines r)) \<le> maxInt + 1)"


text \<open>
  The state a hunk header line works on: the counter of physical lines is reset for the
  first hunk of a file.
\<close>

definition hunkStart :: "ParseState \<Rightarrow> ParseState" where
  "hunkStart st = (if firstHunkInFile st then st\<lparr>diffPosCount := 0, firstHunkInFile := False\<rparr> else st)"

text \<open>The lines that open a file entry.\<close>

definition isDiffLine :: "string \<Rightarrow> bool" where
  "isDiffLine l = HasPrefix l ''diff ''"

text \<open>
  What a line of a file section sets in the current file entry, following the cases of
  the loop in their order: the mode, the original name, the new name. \<open>None\<close> when the
  line leaves the field as it is.
\<close>

definition modeSetBy :: "string \<Rightarrow> FileMode option" where
  "modeSetBy l =
     (if l = ''+++ /dev/null'' then Some FileModeDeleted
      else if l = ''--- /dev/null'' then Some FileModeNew
      else if HasPrefix l similarityPrefix then Some FileModeRenamed
      else if HasPrefix l binaryPrefix then Some FileModeModified
      else None)"

text \<open>The names on a \<open>Binary files\<close> line.\<close>

definition binaryNames :: "string \<Rightarrow> string list" where
  "binaryNames l = Split (TrimSuffix (TrimPrefix l binaryPrefix) '' differ'') '' and ''"

definition origNameSetBy :: "string \<Rightarrow> string option" where
  "origNameSetBy l =
     (if l = ''--- /dev/null'' then None
      else if HasPrefix l oldFilePrefix then Some (parseFileName (TrimPrefix l oldFilePrefix))
      else if HasPrefix l renameFromPrefix then Some (parseFileName (TrimPrefix l renameFromPrefix))
      else if HasPrefix l binaryPrefix then Some (parseFileName (binaryNames l ! 0))
      else None)"

definition newNameSetBy :: "string \<Rightarrow> string option" where
  "newNameSetBy l =
     (if l = ''+++ /dev/null'' then None
      else if HasPrefix l newFilePrefix then Some (parseFileName (TrimPrefix l newFilePrefix))
      else if HasPrefix l renameToPrefix then Some (parseFileName (TrimPrefix l renameToPrefix))
      else if HasPrefix l binaryPrefix then Some (parseFileName (binaryNames l ! 1))
      else None)"

text \<open>
  The value a field has after the lines \<open>ls\<close>: the one set by the last line that sets
  it, \<open>d\<close> when no line does.
\<close>

definition lastSet :: "(string \<Rightarrow> 'a option) \<Rightarrow> 'a \<Rightarrow> string list \<Rightarrow> 'a" where
  "lastSet f d ls = foldl (\<lambda>x l. case f l of None \<Rightarrow> x | Some y \<Rightarrow> y) d ls"

text \<open>
  The file entry opened by the \<open>diff\<close> line that follows the lines \<open>pre\<close>: entries are
  appended in the order of the \<open>diff\<close> lines.
\<close>

definition entryAfter :: "Diff \<Rightarrow> string list \<Rightarrow> DiffFile" where
  "entryAfter d pre = Files d ! length (filter isDiffLine pre)"

text \<open>
  A diff of a deleted file, a new file and a renamed file, as \<open>git diff\<close> prints it,
  and the lines of its three file sections after their \<open>diff\<close> lines.
\<close>

definition exampleDeleted :: "string list" where
  "exampleDeleted = [''deleted file mode 100644'', ''index 0123456..0000000'', ''--- a/file2'',
                     ''+++ /dev/null'', ''@@ -1 +0,0 @@'', ''-gone'']"

definition exampleNew :: "string list" where
  "exampleNew = [''new file mode 100644'', ''index 0000000..0123456'', ''--- /dev/null'',
                 ''+++ b/file4'', ''@@ -0,0 +1 @@'', ''+hello'']"

definition exampleRenamed :: "string list" where
  "exampleRenamed = [''similarity index 90%'', ''rename from old.txt'', ''rename to new.txt'',
                     ''index 0123456..89abcde 100644'', ''--- a/old.txt'', ''+++ b/new.txt'',
                     ''@@ -1 +1 @@'', ''-a'', ''+b'', []]"

definition exampleDiff :: string where
  "exampleDiff = ''diff --git a/file2 b/file2\<newline>deleted file mode 100644\<newline>index 0123456..0000000\<newline>--- a/file2\<newline>+++ /dev/null\<newline>@@ -1 +0,0 @@\<newline>-gone\<newline>diff --git a/file4 b/file4\<newline>new file mode 100644\<newline>index 0000000..0123456\<newline>--- /dev/null\<newline>+++ b/file4\<newline>@@ -0,0 +1 @@\<newline>+hello\<newline>diff --git a/old.txt b/new.txt\<newline>similarity index 90%\<newline>rename from old.txt\<newline>rename to new.txt\<newline>index 0123456..89abcde 100644\<newline>--- a/old.txt\<newline>+++ b/new.txt\<newline>@@ -1 +1 @@\<newline>-a\<newline>+b\<newline>''"

text \<open>
  Whether a hunk is open after the lines \<open>ls\<close>, read off the lines alone: a hunk
  header opens one and a \<open>diff\<close> line closes it. \<open>b\<close> is the answer before \<open>ls\<close>.
\<close>

definition hunkOpen :: "bool \<Rightarrow> string list \<Rightarrow> bool" where
  "hunkOpen b ls =
     foldl (\<lambda>b l. if HasPrefix l ''diff '' then False else if HasPrefix l ''@@ '' then True else b)
       b ls"

section \<open>The invariants of the loop\<close>

text \<open>The state after the counter of physical lines was advanced.\<close>

definition bumped :: "ParseState \<Rightarrow> ParseState" where
  "bumped st = st\<lparr>diffPosCount := incr (diffPosCount st)\<rparr>"

text \<open>
  Every range of every hunk is counted from its start, and while a hunk is active the
  two counters hold the numbers the next lines of the current hunk will get.
\<close>

definition numbersInv :: "ParseState \<Rightarrow> bool" where
  "numbersInv st =
     ((\<forall>f\<in>set (diffFiles st). \<forall>h\<in>set (Hunks f). counted (NewRange h) \<and> counted (OrigRange h))
      \<and> (inHunk st \<longrightarrow> diffFiles st \<noteq> [] \<and> Hunks (last (diffFiles st)) \<noteq> []
            \<and> addedCount st =
                (incr ^^ length (Lines (NewRange (last (Hunks (last (diffFiles st)))))))
                  (Start (NewRange (last (Hunks (last (diffFiles st))))))
            \<and> removedCount st =
                (incr ^^ length (Lines (OrigRange (last (Hunks (last (diffFiles st)))))))
                  (Start (OrigRange (last (Hunks (last (diffFiles st))))))))"


section \<open>General facts about the loop\<close>

lemma mapLast_snoc: "mapLast f (xs @ [x]) = xs @ [f x]"
proof (induction xs)
  case Nil
  show ?case by simp
next
  case (Cons a xs)
  then show ?case by (cases "xs @ [x]") auto
qed

lemma mapLast_eq: "xs \<noteq> [] \<Longrightarrow> mapLast f xs = butlast xs @ [f (last xs)]"
  using mapLast_snoc[of f "butlast xs" "last xs"] by simp

lemma length_mapLast: "length (mapLast f xs) = length xs"
  by (induction f xs rule: mapLast.induct) auto

lemma mapLast_Nil_iff: "(mapLast f xs = []) = (xs = [])"
  by (induction f xs rule: mapLast.induct) auto

lemma loop_append:
  "loop lines i (xs @ ys) st =
     (case loop lines i xs st of
        Ok st' \<Rightarrow> loop lines (i + length xs) ys st'
      | Err e \<Rightarrow> Err e
      | Panic \<Rightarrow> Panic)"
  by (induction xs arbitrary: i st) (auto split: result.splits)

lemma loop_invariant:
  assumes "loop lines i ls st = Ok st'"
    and "P i st"
    and "\<And>j s l s'. P j s \<Longrightarrow> i \<le> j \<Longrightarrow> j < i + length ls \<Longrightarrow> l \<in> set ls
           \<Longrightarrow> step lines j s l = Ok s' \<Longrightarrow> P (Suc j) s'"
  shows "P (i + length ls) st'"
  using assms
proof (induction ls arbitrary: i st)
  case Nil
  then show ?case by simp
next
  case (Cons l ls)
  from Cons.prems(1) obtain s1
    where s1: "step lines i st l = Ok s1" and r: "loop lines (Suc i) ls s1 = Ok st'"
    by (auto split: result.splits)
  have p1: "P (Suc i) s1"
    using Cons.prems(3)[OF Cons.prems(2) _ _ _ s1] by simp
  have "P (Suc i + length ls) st'"
  proof (rule Cons.IH[OF r p1])
    fix j s l' s'
    assume "P j s" "Suc i \<le> j" "j < Suc i + length ls" "l' \<in> set ls"
      "step lines j s l' = Ok s'"
    then show "P (Suc j) s'"
      using Cons.prems(3)[of j s l' s'] by simp
  qed
  then show ?case by simp
qed

text \<open>The five ways an iteration can succeed.\<close>

lemma step_cases:
  assumes "step lines idx st0 l = Ok st'"
  obtains
    (newFile) f where "HasPrefix l ''diff ''"
       "st' = (bumped st0)\<lparr>inHunk := False, diffFiles := diffFiles st0 @ [f],
                 firstHunkInFile := True\<rparr>"
       "Hunks f = []" "OrigName f = []" "NewName f = []" "Mode f = FileModeModified"
  | (header) g where "\<not> HasPrefix l ''diff ''" "diffFiles st0 \<noteq> []"
       "st' = (bumped st0)\<lparr>diffFiles := mapLast g (diffFiles st0)\<rparr>"
       "\<And>f. Hunks (g f) = Hunks f"
       "\<And>f. assignsNewName l \<or> NewName (g f) = NewName f"
       "\<And>f. assignsOrigName l \<or> OrigName (g f) = OrigName f"
  | (hunk) "\<not> HasPrefix l ''diff ''" "HasPrefix l ''@@ ''"
       "hunkHeaderLine (bumped st0) l = Ok st'"
  | (source) "\<not> HasPrefix l ''diff ''" "inHunk st0" "isSourceLine l"
       "sourceLine (bumped st0) l = Ok st'"
  | (skip) "\<not> HasPrefix l ''diff ''" "st' = bumped st0"
  using assms
  unfolding step_def bumped_def Let_def withFile_def assignsNewName_def assignsOrigName_def
  by (auto split: if_splits)

section \<open>The cases of the loop on header lines\<close>

lemma HasPrefix_iff: "HasPrefix s p = (\<exists>r. s = p @ r)"
  unfolding HasPrefix_def
  by (metis append_eq_conv_conj append_take_drop_id)

lemma step_oldFile:
  assumes "diffFiles st \<noteq> []" "HasPrefix l ''--- ''" "l \<noteq> ''--- /dev/null''"
  shows "step lines idx st l =
     Ok ((bumped st)\<lparr>diffFiles :=
           mapLast (\<lambda>f. f\<lparr>OrigName := parseFileName (drop 4 l)\<rparr>) (diffFiles st)\<rparr>)"
proof -
  from assms(2) obtain r where l: "l = ''--- '' @ r" by (auto simp: HasPrefix_iff)
  show ?thesis
    using assms(1,3) unfolding l
    by (simp add: step_def bumped_def Let_def withFile_def HasPrefix_def TrimPrefix_def
        similarityPrefix_def oldFilePrefix_def)
qed

lemma step_newFile:
  assumes "diffFiles st \<noteq> []" "HasPrefix l ''+++ ''" "l \<noteq> ''+++ /dev/null''"
  shows "step lines idx st l =
     Ok ((bumped st)\<lparr>diffFiles :=
           mapLast (\<lambda>f. f\<lparr>NewName := parseFileName (drop 4 l)\<rparr>) (diffFiles st)\<rparr>)"
proof -
  from assms(2) obtain r where l: "l = ''+++ '' @ r" by (auto simp: HasPrefix_iff)
  show ?thesis
    using assms(1,3) unfolding l
    by (simp add: step_def bumped_def Let_def withFile_def HasPrefix_def TrimPrefix_def
        similarityPrefix_def oldFilePrefix_def newFilePrefix_def)
qed

lemma step_renameFrom:
  assumes "diffFiles st \<noteq> []" "HasPrefix l ''rename from ''"
  shows "step lines idx st l =
     Ok ((bumped st)\<lparr>diffFiles :=
           mapLast (\<lambda>f. f\<lparr>OrigName := parseFileName (drop 12 l)\<rparr>) (diffFiles st)\<rparr>)"
proof -
  from assms(2) obtain r where l: "l = ''rename from '' @ r" by (auto simp: HasPrefix_iff)
  show ?thesis
    using assms(1) unfolding l
    by (simp add: step_def bumped_def Let_def withFile_def HasPrefix_def TrimPrefix_def
        similarityPrefix_def oldFilePrefix_def newFilePrefix_def renameFromPrefix_def)
qed

lemma step_renameTo:
  assumes "diffFiles st \<noteq> []" "HasPrefix l ''rename to ''"
  shows "step lines idx st l =
     Ok ((bumped st)\<lparr>diffFiles :=
           mapLast (\<lambda>f. f\<lparr>NewName := parseFileName (drop 10 l)\<rparr>) (diffFiles st)\<rparr>)"
proof -
  from assms(2) obtain r where l: "l = ''rename to '' @ r" by (auto simp: HasPrefix_iff)
  show ?thesis
    using assms(1) unfolding l
    by (simp add: step_def bumped_def Let_def withFile_def HasPrefix_def TrimPrefix_def
        similarityPrefix_def oldFilePrefix_def newFilePrefix_def renameFromPrefix_def
        renameToPrefix_def)
qed

lemma step_binary:
  assumes "diffFiles st \<noteq> []" "HasPrefix l ''Binary files ''"
  shows "step lines idx st l =
     (let fileNames = Split (TrimSuffix (drop 13 l) '' differ'') '' and ''
      in if length fileNames \<noteq> 2 then Err ErrInvalidBinaryDiff
         else Ok ((bumped st)\<lparr>diffFiles :=
                mapLast (\<lambda>f. f\<lparr>Mode := FileModeModified,
                                 OrigName := parseFileName (fileNames ! 0),
                                 NewName := parseFileName (fileNames ! 1)\<rparr>) (diffFiles st)\<rparr>))"
proof -
  from assms(2) obtain r where l: "l = ''Binary files '' @ r" by (auto simp: HasPrefix_iff)
  show ?thesis
    using assms(1) unfolding l
    by (simp add: step_def bumped_def Let_def withFile_def HasPrefix_def TrimPrefix_def
        similarityPrefix_def oldFilePrefix_def newFilePrefix_def renameFromPrefix_def
        renameToPrefix_def binaryPrefix_def)
qed

lemma step_devNull:
  assumes "diffFiles st \<noteq> []"
  shows "step lines idx st ''--- /dev/null'' =
           Ok ((bumped st)\<lparr>diffFiles := mapLast (\<lambda>f. f\<lparr>Mode := FileModeNew\<rparr>) (diffFiles st)\<rparr>)"
    and "step lines idx st ''+++ /dev/null'' =
           Ok ((bumped st)\<lparr>diffFiles := mapLast (\<lambda>f. f\<lparr>Mode := FileModeDeleted\<rparr>) (diffFiles st)\<rparr>)"
  using assms
  by (simp_all add: step_def bumped_def Let_def withFile_def HasPrefix_def)

lemma step_nameLine_Ok:
  assumes "diffFiles st \<noteq> []" "nameLine l"
  shows "\<exists>st'. step lines idx st l = Ok st'"
proof -
  consider "l = ''--- /dev/null''" | "l = ''+++ /dev/null''"
    | "HasPrefix l ''--- ''" "l \<noteq> ''--- /dev/null''"
    | "HasPrefix l ''+++ ''" "l \<noteq> ''+++ /dev/null''"
    | "HasPrefix l ''rename from ''" | "HasPrefix l ''rename to ''"
    using assms(2) unfolding nameLine_def by blast
  then show ?thesis
  proof cases
    case 1 then show ?thesis using step_devNull(1)[OF assms(1)] by simp
  next
    case 2 then show ?thesis using step_devNull(2)[OF assms(1)] by simp
  next
    case 3 then show ?thesis using step_oldFile[OF assms(1)] by simp
  next
    case 4 then show ?thesis using step_newFile[OF assms(1)] by simp
  next
    case 5 then show ?thesis using step_renameFrom[OF assms(1)] by simp
  next
    case 6 then show ?thesis using step_renameTo[OF assms(1)] by simp
  qed
qed

lemma step_unknownModeLine:
  assumes "inHunk st" "unknownModeLine l" "\<not> headerPrefixed l"
  shows "step lines idx st l = Err (ErrLineMode l)"
proof -
  from assms(2) obtain c r where l: "l = c # r" and c: "c \<noteq> CHR '' ''" "c \<noteq> CHR ''+''" "c \<noteq> CHR ''-''"
    and m: "l \<noteq> noNewlineMarker"
    by (cases l) (auto simp: unknownModeLine_def)
  have src: "isSourceLine l"
    using m c by (auto simp: isSourceLine_def l)
  have lm: "lineMode l = Err (ErrLineMode l)"
    using c by (simp add: lineMode_def l)
  have np: "\<not> HasPrefix l oldFilePrefix" "\<not> HasPrefix l newFilePrefix"
    "l \<noteq> ''+++ /dev/null''" "l \<noteq> ''--- /dev/null''"
    using c by (auto simp: HasPrefix_def oldFilePrefix_def newFilePrefix_def l)
  show ?thesis
    using assms(1,3) np src lm
    by (simp add: step_def headerPrefixed_def Let_def sourceLine_def)
qed

section \<open>A malformed octal escape makes \<open>Unquote\<close> fail\<close>

text \<open>
  The bytes \<open>Unquote\<close> consumes with a rune or an escape hold no backslash but the one
  that starts the escape (and the one it escapes), so it reaches every escape of the
  token, unless it has failed before.
\<close>

lemma acceptLo_ge: "0x80 \<le> acceptLo b"
  by (simp add: acceptLo_def)

lemma seqLen_cases: "seqLen b = 2 \<or> seqLen b = 3 \<or> seqLen b = 4"
  by (simp add: seqLen_def)

lemma DecodeRune_continuation:
  assumes "DecodeRuneInString (c # t) = (r, w)"
  shows "0 < w \<and> (\<forall>i. Suc i < w \<longrightarrow> i < length t \<and> 0x80 \<le> byte (t ! i))"
proof -
  have lo: "inRange (acceptLo b) hi x \<Longrightarrow> 0x80 \<le> byte x" for b hi x
    using acceptLo_ge[of b] by (simp add: inRange_def)
  have co: "inRange 0x80 hi x \<Longrightarrow> 0x80 \<le> byte x" for hi x
    by (simp add: inRange_def)
  have len: "\<not> Suc (length t) < n \<Longrightarrow> n - 1 \<le> length t" for n
    by simp
  have "w = 1
      \<or> (w = 2 \<and> 1 \<le> length t \<and> 0x80 \<le> byte (t ! 0))
      \<or> (w = 3 \<and> 2 \<le> length t \<and> 0x80 \<le> byte (t ! 0) \<and> 0x80 \<le> byte (t ! 1))
      \<or> (w = 4 \<and> 3 \<le> length t \<and> 0x80 \<le> byte (t ! 0) \<and> 0x80 \<le> byte (t ! 1)
            \<and> 0x80 \<le> byte (t ! 2))"
    using assms seqLen_cases[of "byte c"]
    by (auto simp: DecodeRuneInString_def Let_def Suc_le_eq simp del: length_greater_0_conv
          dest: lo co dest!: len split: if_splits)
  then show ?thesis
  proof (elim disjE conjE)
    assume "w = 1"
    then show ?thesis by simp
  next
    assume "w = 2" "1 \<le> length t" "0x80 \<le> byte (t ! 0)"
    then show ?thesis by (auto simp: less_Suc_eq numeral_2_eq_2)
  next
    assume "w = 3" "2 \<le> length t" "0x80 \<le> byte (t ! 0)" "0x80 \<le> byte (t ! 1)"
    then show ?thesis by (auto simp: less_Suc_eq numeral_3_eq_3)
  next
    assume "w = 4" "3 \<le> length t" "0x80 \<le> byte (t ! 0)" "0x80 \<le> byte (t ! 1)"
      "0x80 \<le> byte (t ! 2)"
    then show ?thesis by (auto simp: less_Suc_eq numeral_2_eq_2 numeral_eq_Suc)
  qed
qed

lemma escaped_octal_digit:
  assumes "inRange 48 55 d"
  shows "escaped d rest =
     (if length rest < 2 then None
      else case (octal (rest ! 0), octal (rest ! 1)) of
             (Some x1, Some x2) \<Rightarrow>
               (let v = ((byte d - 48) * 8 + x1) * 8 + x2
                in if v > 255 then None else Some (v, False, drop 2 rest))
           | _ \<Rightarrow> None)"
proof -
  have "\<not> inRange 48 55 x" if "x \<in> set ''abfnrtvxuU''" for x
    using that by (auto simp: inRange_def byte_def)
  with assms have "d \<notin> set ''abfnrtvxuU''" by blast
  then show ?thesis
    using assms by (simp add: escaped_def)
qed

lemma escaped_malformedOctal: "malformedOctal d rest \<Longrightarrow> escaped d rest = None"
  unfolding malformedOctal_def
  by (auto simp: escaped_octal_digit Let_def split: option.splits)

lemma UnquoteChar_backslash: "UnquoteChar (BSL # d # rest) = escaped d rest"
  by (simp add: UnquoteChar_def byte_def)

lemma malformedOctal_snoc: "malformedOctal d rest \<Longrightarrow> malformedOctal d (rest @ [DQ])"
proof (cases rest)
  case Nil
  assume "malformedOctal d rest"
  then show ?thesis using Nil by (simp add: malformedOctal_def)
next
  case (Cons x xs)
  assume m: "malformedOctal d rest"
  show ?thesis
  proof (cases xs)
    case Nil
    have "octal DQ = None" by (simp add: octal_def inRange_def byte_def)
    then show ?thesis using m Cons Nil by (simp add: malformedOctal_def)
  next
    case (Cons y ys)
    then show ?thesis using m \<open>rest = x # xs\<close> by (simp add: malformedOctal_def)
  qed
qed

lemma malformedToken_skip: "c \<noteq> BSL \<Longrightarrow> malformedToken (c # s) = malformedToken s"
  by (cases s) simp_all

lemma malformedToken_skips: "BSL \<notin> set pre \<Longrightarrow> malformedToken (pre @ s) = malformedToken s"
proof (induction pre)
  case Nil
  then show ?case by simp
next
  case (Cons a pre)
  then have "a \<noteq> BSL" "BSL \<notin> set pre" by auto
  with Cons.IH show ?case by (simp add: malformedToken_skip)
qed

lemma malformedToken_drop:
  "malformedToken s \<Longrightarrow> BSL \<notin> set (take n s) \<Longrightarrow> malformedToken (drop n s)"
  using malformedToken_skips[of "take n s" "drop n s"] by simp

lemma malformedToken_backslash: "malformedToken s \<Longrightarrow> BSL \<in> set s"
  using malformedToken_skips[of s "[]"] by auto

lemma malformedToken_snoc: "malformedToken s \<Longrightarrow> malformedToken (s @ [DQ])"
proof (induction s rule: malformedToken.induct)
  case 1
  then show ?case by simp
next
  case (2 c)
  then show ?case by simp
next
  case (3 c d rest)
  then show ?case
    by (cases "c = BSL") (auto dest: malformedOctal_snoc)
qed

lemma unhex_backslash: "unhex BSL = None"
  by (simp add: unhex_def inRange_def byte_def)

lemma hexValue_no_backslash: "hexValue v s = Some x \<Longrightarrow> BSL \<notin> set s"
  by (induction s arbitrary: v) (auto simp: unhex_backslash split: option.splits)

lemma octal_backslash: "octal BSL = None"
  by (simp add: octal_def inRange_def byte_def)

lemma escaped_consumes:
  assumes "escaped c s = Some (r, m, t)"
  shows "\<exists>n. t = drop n s \<and> BSL \<notin> set (take n s)"
proof -
  have z: "t = s \<Longrightarrow> ?thesis"
    by (intro exI[of _ 0]) simp
  have hx: "\<exists>n. drop k s = drop n s \<and> BSL \<notin> set (take n s)"
    if "hexValue 0 (take k s) = Some v" for k v
    using hexValue_no_backslash[OF that] by blast
  consider (simple) "c \<in> set ''abfnrtv''" | (hex) "c \<in> set ''xuU''"
    | (oct) "c \<notin> set ''abfnrtvxuU''" "inRange 48 55 c"
    | (quote) "c \<notin> set ''abfnrtvxuU''" "\<not> inRange 48 55 c"
    by (cases "c \<in> set ''abfnrtv''"; cases "c \<in> set ''xuU''"; cases "inRange 48 55 c") auto
  then show ?thesis
  proof cases
    case simple
    then have "t = s" using assms by (auto simp: escaped_def)
    then show ?thesis by (rule z)
  next
    case hex
    then have "\<exists>k v. hexValue 0 (take k s) = Some v \<and> t = drop k s"
      using assms
      by (auto simp: escaped_def Let_def split: if_splits option.splits)
    then obtain k v where "hexValue 0 (take k s) = Some v" "t = drop k s" by blast
    then show ?thesis using hx[of k v] by simp
  next
    case oct
    from oct(2) assms have l: "2 \<le> length s" and t: "t = drop 2 s"
      and o: "octal (s ! 0) \<noteq> None" "octal (s ! 1) \<noteq> None"
      by (auto simp: escaped_octal_digit Let_def split: if_splits option.splits)
    from l obtain a b u where s: "s = a # b # u"
      by (cases s; cases "tl s") auto
    from o have "a \<noteq> BSL" "b \<noteq> BSL" using octal_backslash by (auto simp: s)
    then have "BSL \<notin> set (take 2 s)" by (simp add: s numeral_2_eq_2)
    with t show ?thesis by blast
  next
    case quote
    then have "t = s" using assms by (auto simp: escaped_def split: if_splits)
    then show ?thesis by (rule z)
  qed
qed

lemma unquoteLoop_malformedToken:
  "malformedToken t \<Longrightarrow>
     (case unquoteLoop t buf of None \<Rightarrow> True | Some (out, rem) \<Rightarrow> rem \<noteq> [])"
proof (induction t buf rule: unquoteLoop.induct)
  case (1 buf)
  then show ?case by simp
next
  case (2 c cs buf)
  show ?case
  proof (cases "c = DQ")
    case True
    with 2(2) have "malformedToken cs" by (simp add: malformedToken_skip)
    then have "cs \<noteq> []" by auto
    then show ?thesis using True by simp
  next
    case nq: False
    show ?thesis
    proof (cases "c = NL")
      case True
      then show ?thesis using nq by simp
    next
      case nn: False
      show ?thesis
      proof (cases "UnquoteChar (c # cs)")
        case None
        then show ?thesis using nq nn by simp
      next
        case (Some x)
        obtain r mb rem where x: "x = (r, mb, rem)" by (cases x)
        have u: "UnquoteChar (c # cs) = Some (r, mb, rem)" using Some x by simp
        have "malformedToken rem"
        proof (cases "c = BSL")
          case True
          with 2(2) obtain e w where cs: "cs = e # w" by (cases cs) auto
          from u have e: "escaped e w = Some (r, mb, rem)"
            using True cs by (simp add: UnquoteChar_backslash)
          then have "\<not> malformedOctal e w" by (auto dest: escaped_malformedOctal)
          with 2(2) have mw: "malformedToken w" using True cs by simp
          from escaped_consumes[OF e] obtain n where "rem = drop n w" "BSL \<notin> set (take n w)"
            by blast
          with mw show ?thesis by (simp add: malformedToken_drop)
        next
          case nb: False
          with 2(2) have mcs: "malformedToken cs" by (simp add: malformedToken_skip)
          show ?thesis
          proof (cases "byte c \<ge> 0x80")
            case True
            obtain r' w where d: "DecodeRuneInString (c # cs) = (r', w)"
              by (cases "DecodeRuneInString (c # cs)")
            from u have rem: "rem = drop w (c # cs)"
              using nq True d by (simp add: UnquoteChar_def)
            from DecodeRune_continuation[OF d]
            have w: "0 < w" and k: "\<And>i. Suc i < w \<Longrightarrow> i < length cs \<and> 0x80 \<le> byte (cs ! i)"
              by auto
            have "BSL \<notin> set (take (w - 1) cs)"
            proof
              assume "BSL \<in> set (take (w - 1) cs)"
              then obtain i where i: "i < length (take (w - 1) cs)" "take (w - 1) cs ! i = BSL"
                by (auto simp: in_set_conv_nth)
              then have "Suc i < w" "cs ! i = BSL" by auto
              with k[of i] show False by (simp add: byte_def)
            qed
            with mcs have "malformedToken (drop (w - 1) cs)" by (rule malformedToken_drop)
            moreover have "drop w (c # cs) = drop (w - 1) cs"
              using w by (cases w) simp_all
            ultimately show ?thesis using rem by simp
          next
            case False
            with u have "rem = cs" using nq nb by (simp add: UnquoteChar_def)
            with mcs show ?thesis by simp
          qed
        qed
        from 2(1)[OF nq nn u refl refl this] show ?thesis
          using nq nn u by simp
      qed
    qed
  qed
qed

lemma Unquote_malformedToken:
  assumes "malformedToken s"
  shows "Unquote ([DQ] @ s @ [DQ]) = None"
proof -
  define body where "body = s @ [DQ]"
  define n where "n = length (takeWhile (\<lambda>c. c \<noteq> DQ) body)"
  have inp: "[DQ] @ s @ [DQ] = DQ # body"
    by (simp add: body_def)
  have loop: "case unquoteLoop body [] of None \<Rightarrow> True | Some (out, rem) \<Rightarrow> rem \<noteq> []"
    using unquoteLoop_malformedToken[OF malformedToken_snoc[OF assms]]
    by (simp add: body_def)
  have fast: "drop (Suc n) body \<noteq> []" if nb: "BSL \<notin> set (take (Suc n) body)"
  proof
    assume "drop (Suc n) body = []"
    then have "take (Suc n) body = body" by simp
    with nb have "BSL \<notin> set body" by simp
    then show False using malformedToken_backslash[OF assms] by (simp add: body_def)
  qed
  have "Unquote (DQ # body) = None"
    using loop fast
    by (auto simp: Unquote_def Let_def n_def[symmetric] split: option.splits)
  then show ?thesis by (simp only: inp)
qed

lemma decodeOctalString_malformedToken:
  "malformedToken s \<Longrightarrow> decodeOctalString s = s"
  by (simp add: decodeOctalString_def Unquote_malformedToken del: append.simps)

lemma parseFileName_quoted_b:
  "parseFileName ([DQ] @ ''b/'' @ s @ [DQ]) = decodeOctalString s"
  by (simp add: parseFileName_def HasPrefix_def TrimPrefix_def TrimSuffix_def HasSuffix_def
      Let_def)

lemma parseFileName_quoted_a:
  "parseFileName ([DQ] @ ''a/'' @ s @ [DQ]) = decodeOctalString s"
  by (simp add: parseFileName_def HasPrefix_def TrimPrefix_def TrimSuffix_def HasSuffix_def
      Let_def)

text \<open>
  A diff whose quoted names have malformed octal escapes is parsed, and the names are
  kept as they are written.
\<close>

lemma Parse_keeps_malformed_name:
  "map_result (\<lambda>d. map fileModeAndNames (Files d))
     (Parse (''diff --git '' @ [DQ] @ ''a/f'' @ BSL # ''34'' @ [DQ, CHR '' '', DQ] @ ''b/f'' @ BSL # ''34'' @ [DQ, NL]
             @ ''--- '' @ [DQ] @ ''a/f'' @ BSL # ''34'' @ [DQ, NL]
             @ ''+++ '' @ [DQ] @ ''b/f'' @ BSL # ''344'' @ BSL # ''34'' @ [DQ, NL]
             @ ''@@ -1 +1 @@\<newline>-a\<newline>+b''))
   = Ok [(FileModeModified, ''f'' @ BSL # ''34'', ''f'' @ BSL # ''344'' @ BSL # ''34'')]"
  by code_simp


section \<open>What a hunk header line and a content line do\<close>

lemma last_mapLast: "xs \<noteq> [] \<Longrightarrow> last (mapLast f xs) = f (last xs)"
  by (simp add: mapLast_eq)

lemma butlast_mapLast: "butlast (mapLast f xs) = butlast xs"
  by (cases "xs = []") (simp_all add: mapLast_eq)

lemma if_chain_Ok:
  "(if c1 then Panic else if c2 then Err e else x) = Ok y \<Longrightarrow> x = Ok y"
  by (simp split: if_splits)

lemma hunkHeaderLine_Ok:
  assumes "hunkHeaderLine st l = Ok st'"
  obtains hunk where
    "diffFiles st \<noteq> []"
    "Lines (OrigRange hunk) = []" "Lines (NewRange hunk) = []" "Lines (WholeRange hunk) = []"
    "st' = (hunkStart st)\<lparr>inHunk := True,
               diffFiles := mapLast (\<lambda>f. f\<lparr>Hunks := Hunks f @ [hunk]\<rparr>) (diffFiles st),
               addedCount := Start (NewRange hunk),
               removedCount := Start (OrigRange hunk)\<rparr>"
proof -
  have df: "diffFiles (hunkStart st) = diffFiles st"
    by (simp add: hunkStart_def)
  from assms have ne: "diffFiles st \<noteq> []"
    by (auto simp: hunkHeaderLine_def Let_def split: if_splits)
  define m where "m = hunkHeaderReg_FindStringSubmatch l"
  from assms have e: "(case Atoi (m ! 1) of
            (_, Some e) \<Rightarrow> Err (ErrAtoi (m ! 1) e)
          | (a, None) \<Rightarrow>
             (case (if length (m ! 2) > 0 then Atoi (m ! 2) else (a, None)) of
                (_, Some e) \<Rightarrow> Err (ErrAtoi (m ! 2) e)
              | (b, None) \<Rightarrow>
                 (case Atoi (m ! 3) of
                    (_, Some e) \<Rightarrow> Err (ErrAtoi (m ! 3) e)
                  | (c, None) \<Rightarrow>
                     (case (if length (m ! 4) > 0 then Atoi (m ! 4) else (c, None)) of
                        (_, Some e) \<Rightarrow> Err (ErrAtoi (m ! 4) e)
                      | (d, None) \<Rightarrow>
                          Ok ((hunkStart st)\<lparr>inHunk := True,
                                  diffFiles :=
                                    mapLast (\<lambda>f. f\<lparr>Hunks := Hunks f @ [\<lparr>HunkHeader = m ! 5,
                                OrigRange = \<lparr>Start = a, Length = b, Lines = []\<rparr>,
                                NewRange = \<lparr>Start = c, Length = d, Lines = []\<rparr>,
                                WholeRange = \<lparr>Start = 0, Length = 0, Lines = []\<rparr>\<rparr>]\<rparr>) (diffFiles st),
                                  addedCount := c,
                                  removedCount := a\<rparr>))))) = Ok st'"
    unfolding hunkHeaderLine_def hunkStart_def[symmetric] m_def[symmetric] Let_def df
    by (rule if_chain_Ok)
  then obtain a where a: "Atoi (m ! 1) = (a, None)"
    by (cases "Atoi (m ! 1)") (auto split: option.splits)
  from e a obtain b where b: "(if length (m ! 2) > 0 then Atoi (m ! 2) else (a, None)) = (b, None)"
    by (cases "(if length (m ! 2) > 0 then Atoi (m ! 2) else (a, None))") (auto split: option.splits)
  from e a b obtain c where c: "Atoi (m ! 3) = (c, None)"
    by (cases "Atoi (m ! 3)") (auto split: option.splits)
  from e a b c obtain d where d: "(if length (m ! 4) > 0 then Atoi (m ! 4) else (c, None)) = (d, None)"
    by (cases "(if length (m ! 4) > 0 then Atoi (m ! 4) else (c, None))") (auto split: option.splits)
  from e have "Ok ((hunkStart st)\<lparr>inHunk := True,
                                  diffFiles :=
                                    mapLast (\<lambda>f. f\<lparr>Hunks := Hunks f @ [\<lparr>HunkHeader = m ! 5,
                                OrigRange = \<lparr>Start = a, Length = b, Lines = []\<rparr>,
                                NewRange = \<lparr>Start = c, Length = d, Lines = []\<rparr>,
                                WholeRange = \<lparr>Start = 0, Length = 0, Lines = []\<rparr>\<rparr>]\<rparr>) (diffFiles st),
                                  addedCount := c,
                                  removedCount := a\<rparr>) = Ok st'"
    by (simp only: a b c d prod.case option.case)
  then have st': "st' = (hunkStart st)\<lparr>inHunk := True,
                                  diffFiles :=
                                    mapLast (\<lambda>f. f\<lparr>Hunks := Hunks f @ [\<lparr>HunkHeader = m ! 5,
                                OrigRange = \<lparr>Start = a, Length = b, Lines = []\<rparr>,
                                NewRange = \<lparr>Start = c, Length = d, Lines = []\<rparr>,
                                WholeRange = \<lparr>Start = 0, Length = 0, Lines = []\<rparr>\<rparr>]\<rparr>) (diffFiles st),
                                  addedCount := c,
                                  removedCount := a\<rparr>"
    by simp
  show ?thesis
    by (rule that[of "\<lparr>HunkHeader = m ! 5,
                                OrigRange = \<lparr>Start = a, Length = b, Lines = []\<rparr>,
                                NewRange = \<lparr>Start = c, Length = d, Lines = []\<rparr>,
                                WholeRange = \<lparr>Start = 0, Length = 0, Lines = []\<rparr>\<rparr>"])
       (simp_all add: ne st')
qed

lemma sourceLine_cases:
  assumes "sourceLine st l = Ok st'"
  obtains
    (Added) dl where "dl = \<lparr>LineMode = DiffLineModeAdded, Number = addedCount st,
                             Content = drop 1 l, Position = diffPosCount st\<rparr>"
      "st' = (withHunk (\<lambda>h. h\<lparr>NewRange := appendLine dl (NewRange h),
                                WholeRange := appendLine dl (WholeRange h)\<rparr>) st)
               \<lparr>addedCount := incr (addedCount st)\<rparr>"
  | (Removed) dl where "dl = \<lparr>LineMode = DiffLineModeRemoved, Number = removedCount st,
                             Content = drop 1 l, Position = diffPosCount st\<rparr>"
      "st' = (withHunk (\<lambda>h. h\<lparr>OrigRange := appendLine dl (OrigRange h),
                                WholeRange := appendLine dl (WholeRange h)\<rparr>) st)
               \<lparr>removedCount := incr (removedCount st)\<rparr>"
  | (Unchanged) nl ol where "nl = \<lparr>LineMode = DiffLineModeUnchanged, Number = addedCount st,
                             Content = drop 1 l, Position = diffPosCount st\<rparr>"
      "ol = \<lparr>LineMode = DiffLineModeUnchanged, Number = removedCount st,
                             Content = drop 1 l, Position = diffPosCount st\<rparr>"
      "st' = (withHunk (\<lambda>h. h\<lparr>NewRange := appendLine nl (NewRange h),
                                WholeRange := appendLine nl (WholeRange h),
                                OrigRange := appendLine ol (OrigRange h)\<rparr>) st)
               \<lparr>addedCount := incr (addedCount st), removedCount := incr (removedCount st)\<rparr>"
proof -
  from assms obtain m where m: "lineMode l = Ok m"
    by (auto simp: sourceLine_def split: result.splits)
  show ?thesis
  proof (cases m)
    case DiffLineModeAdded
    show ?thesis
      by (rule Added[OF refl]) (use assms m DiffLineModeAdded in \<open>simp add: sourceLine_def Let_def\<close>)
  next
    case DiffLineModeRemoved
    show ?thesis
      by (rule Removed[OF refl]) (use assms m DiffLineModeRemoved in \<open>simp add: sourceLine_def Let_def\<close>)
  next
    case DiffLineModeUnchanged
    show ?thesis
      by (rule Unchanged[OF refl refl]) (use assms m DiffLineModeUnchanged in \<open>simp add: sourceLine_def Let_def\<close>)
  qed
qed

lemma map_result_OkE:
  assumes "map_result g r = Ok y"
  obtains x where "r = Ok x" "g x = y"
  using assms by (cases r) auto

section \<open>Invariant: the line numbers of a range\<close>

lemma counted_empty: "Lines r = [] \<Longrightarrow> counted r"
  by (simp add: counted_def lineNumbers_def)

lemma counted_appendLine:
  "counted r \<Longrightarrow> Number dl = (incr ^^ length (Lines r)) (Start r) \<Longrightarrow> counted (appendLine dl r)"
  by (simp add: counted_def lineNumbers_def appendLine_def)

lemma numbersInv_files_cong:
  assumes "numbersInv st" "inHunk st' = inHunk st" "addedCount st' = addedCount st"
    "removedCount st' = removedCount st" "diffFiles st' = diffFiles st"
  shows "numbersInv st'"
  using assms by (simp add: numbersInv_def)

lemma numbersInv_bumped: "numbersInv (bumped st) = numbersInv st"
  by (simp add: numbersInv_def bumped_def)

lemma numbersInv_hunkStart: "numbersInv (hunkStart st) = numbersInv st"
  by (simp add: numbersInv_def hunkStart_def)

lemma numbersInv_newFile:
  assumes "numbersInv st" "Hunks f = []"
  shows "numbersInv (st\<lparr>inHunk := False, diffFiles := diffFiles st @ [f], firstHunkInFile := True\<rparr>)"
  using assms by (auto simp: numbersInv_def)

lemma numbersInv_header:
  assumes "numbersInv st" "\<And>f. Hunks (g f) = Hunks f"
  shows "numbersInv (st\<lparr>diffFiles := mapLast g (diffFiles st)\<rparr>)"
proof (cases "diffFiles st = []")
  case True
  then show ?thesis using assms by (simp add: numbersInv_def)
next
  case False
  then obtain fs f where fs: "diffFiles st = fs @ [f]"
    by (metis append_butlast_last_id)
  show ?thesis
    using assms unfolding numbersInv_def fs
    by (auto simp: mapLast_snoc)
qed

lemma numbersInv_hunk:
  assumes "numbersInv st" "diffFiles st \<noteq> []" "Lines (NewRange hunk) = []" "Lines (OrigRange hunk) = []"
  shows "numbersInv (st\<lparr>inHunk := True,
               diffFiles := mapLast (\<lambda>f. f\<lparr>Hunks := Hunks f @ [hunk]\<rparr>) (diffFiles st),
               addedCount := Start (NewRange hunk),
               removedCount := Start (OrigRange hunk)\<rparr>)"
proof -
  from assms(2) obtain fs f where fs: "diffFiles st = fs @ [f]"
    by (metis append_butlast_last_id)
  show ?thesis
    using assms unfolding numbersInv_def fs
    by (auto simp: mapLast_snoc counted_empty)
qed

lemma numbersInv_source:
  assumes inv: "numbersInv st" and ih: "inHunk st"
    and n: "\<And>h. addedCount st = (incr ^^ length (Lines (NewRange h))) (Start (NewRange h)) \<Longrightarrow>
                removedCount st = (incr ^^ length (Lines (OrigRange h))) (Start (OrigRange h)) \<Longrightarrow>
                counted (NewRange h) \<Longrightarrow> counted (OrigRange h) \<Longrightarrow>
                counted (NewRange (g h)) \<and> counted (OrigRange (g h))
                \<and> a' = (incr ^^ length (Lines (NewRange (g h)))) (Start (NewRange (g h)))
                \<and> r' = (incr ^^ length (Lines (OrigRange (g h)))) (Start (OrigRange (g h)))"
  shows "numbersInv ((withHunk g st)\<lparr>addedCount := a', removedCount := r'\<rparr>)"
proof -
  from inv ih obtain fs f where fs: "diffFiles st = fs @ [f]" and hne: "Hunks f \<noteq> []"
    unfolding numbersInv_def by (metis append_butlast_last_id)
  then obtain hs h where hs: "Hunks f = hs @ [h]"
    by (metis append_butlast_last_id)
  have h: "addedCount st = (incr ^^ length (Lines (NewRange h))) (Start (NewRange h))"
    "removedCount st = (incr ^^ length (Lines (OrigRange h))) (Start (OrigRange h))"
    "counted (NewRange h)" "counted (OrigRange h)"
    using inv ih unfolding numbersInv_def fs by (simp_all add: hs)
  note n[OF h]
  then show ?thesis
    using inv unfolding numbersInv_def withHunk_def fs
    by (auto simp: mapLast_snoc hs)
qed

lemma numbersInv_step:
  assumes "numbersInv st" "step lines idx st l = Ok st'"
  shows "numbersInv st'"
  using assms(2)
proof (cases rule: step_cases)
  case (newFile f)
  show ?thesis
    by (rule numbersInv_files_cong[OF numbersInv_newFile[OF assms(1) newFile(3)]])
       (simp_all add: newFile(2) bumped_def)
next
  case (header g)
  show ?thesis
    by (rule numbersInv_files_cong[OF numbersInv_header[OF assms(1) header(4)]])
       (simp_all add: header(3) bumped_def)
next
  case hunk
  from hunk(3) show ?thesis
  proof (cases rule: hunkHeaderLine_Ok)
    case (1 hk)
    have ne: "diffFiles st \<noteq> []" using 1(1) by (simp add: bumped_def)
    show ?thesis
      by (rule numbersInv_files_cong[OF numbersInv_hunk[OF assms(1) ne 1(3) 1(2)]])
         (simp_all add: 1(5) bumped_def hunkStart_def)
  qed
next
  case source
  have wf: "diffFiles (withHunk g (bumped st)) = diffFiles (withHunk g st)" for g
    by (simp add: withHunk_def bumped_def)
  from source(4) show ?thesis
  proof (cases rule: sourceLine_cases)
    case (Added dl)
    have "numbersInv ((withHunk (\<lambda>h. h\<lparr>NewRange := appendLine dl (NewRange h),
                                WholeRange := appendLine dl (WholeRange h)\<rparr>) st)
               \<lparr>addedCount := incr (addedCount st), removedCount := removedCount st\<rparr>)"
      by (rule numbersInv_source[OF assms(1) source(2)])
         (simp add: counted_appendLine Added(1) bumped_def, simp add: appendLine_def)
    then show ?thesis
      by (rule numbersInv_files_cong) (simp_all add: Added(2) wf, simp_all add: withHunk_def bumped_def)
  next
    case (Removed dl)
    have "numbersInv ((withHunk (\<lambda>h. h\<lparr>OrigRange := appendLine dl (OrigRange h),
                                WholeRange := appendLine dl (WholeRange h)\<rparr>) st)
               \<lparr>addedCount := addedCount st, removedCount := incr (removedCount st)\<rparr>)"
      by (rule numbersInv_source[OF assms(1) source(2)])
         (simp add: counted_appendLine Removed(1) bumped_def, simp add: appendLine_def)
    then show ?thesis
      by (rule numbersInv_files_cong) (simp_all add: Removed(2) wf, simp_all add: withHunk_def bumped_def)
  next
    case (Unchanged nl ol)
    have "numbersInv ((withHunk (\<lambda>h. h\<lparr>NewRange := appendLine nl (NewRange h),
                                WholeRange := appendLine nl (WholeRange h),
                                OrigRange := appendLine ol (OrigRange h)\<rparr>) st)
               \<lparr>addedCount := incr (addedCount st), removedCount := incr (removedCount st)\<rparr>)"
      by (rule numbersInv_source[OF assms(1) source(2)])
         (simp add: counted_appendLine Unchanged(1,2) bumped_def, simp add: appendLine_def)
    then show ?thesis
      by (rule numbersInv_files_cong) (simp_all add: Unchanged(3) wf, simp_all add: withHunk_def bumped_def)
  qed
next
  case skip
  then show ?thesis using assms(1) by (simp add: numbersInv_bumped)
qed

lemma numbersInv_init: "numbersInv initState"
  by (simp add: numbersInv_def initState_def)

lemma numbersInv_loop:
  assumes "loop lines i ls st = Ok st'" "numbersInv st"
  shows "numbersInv st'"
  using loop_invariant[where P = "\<lambda>_. numbersInv", OF assms] numbersInv_step by blast

lemma incr_funpow: "s + int k \<le> maxInt \<Longrightarrow> (incr ^^ k) s = s + int k"
  by (induction k) (auto simp: incr_def)

lemma counted_fits:
  assumes "counted r" "fitsInt r"
  shows "lineNumbers r = map (\<lambda>k. Start r + int k) [0..<length (Lines r)]"
proof -
  have "(incr ^^ k) (Start r) = Start r + int k" if "k < length (Lines r)" for k
    using that assms(2) by (intro incr_funpow) (simp add: fitsInt_def)
  then show ?thesis
    using assms(1) by (simp add: counted_def)
qed

lemma consecutive_sorted: "sorted_wrt (<) (map (\<lambda>k. s + int k) [0..<n])"
  by (simp add: sorted_wrt_map sorted_wrt_upt[unfolded sorted_wrt_iff_nth_less] sorted_wrt_iff_nth_less)

section \<open>Invariant: the positions of a file\<close>








lemma step_hunk_header:
  assumes "HasPrefix l ''@@ ''"
  shows "step lines idx st l = hunkHeaderLine (bumped st) l"
proof -
  from assms obtain r where l: "l = ''@@ '' @ r" by (auto simp: HasPrefix_iff)
  show ?thesis
    unfolding l
    by (simp add: step_def bumped_def Let_def HasPrefix_def similarityPrefix_def oldFilePrefix_def
        newFilePrefix_def renameFromPrefix_def renameToPrefix_def binaryPrefix_def)
qed



section \<open>File entries and their names\<close>

text \<open>
  An iteration either appends a file entry (on a \<open>diff\<close> line) or rewrites the last
  one; only a line that assigns a name changes that name.
\<close>

lemma step_files:
  assumes "step lines idx st l = Ok st'"
  shows "if isDiffLine l then (\<exists>f. diffFiles st' = diffFiles st @ [f] \<and> NewName f = [] \<and> OrigName f = [])
         else (\<exists>g. diffFiles st' = mapLast g (diffFiles st)
                 \<and> (\<forall>f. assignsNewName l \<or> NewName (g f) = NewName f)
                 \<and> (\<forall>f. assignsOrigName l \<or> OrigName (g f) = OrigName f))"
  using assms
proof (cases rule: step_cases)
  case (newFile f)
  then show ?thesis by (auto simp: isDiffLine_def bumped_def)
next
  case (header g)
  then show ?thesis by (auto simp: isDiffLine_def bumped_def)
next
  case hunk
  from hunk(3) show ?thesis
  proof (cases rule: hunkHeaderLine_Ok)
    case (1 hk)
    have "diffFiles st' = mapLast (\<lambda>f. f\<lparr>Hunks := Hunks f @ [hk]\<rparr>) (diffFiles st)"
      by (simp add: 1(5) bumped_def)
    then show ?thesis using hunk(1) by (auto simp: isDiffLine_def)
  qed
next
  case source
  from source(4) have "\<exists>g. diffFiles st' = mapLast (\<lambda>f. f\<lparr>Hunks := mapLast g (Hunks f)\<rparr>) (diffFiles st)"
    by (cases rule: sourceLine_cases) (auto simp: withHunk_def bumped_def)
  then obtain g where "diffFiles st' = mapLast (\<lambda>f. f\<lparr>Hunks := mapLast g (Hunks f)\<rparr>) (diffFiles st)" ..
  then show ?thesis using source(1) by (auto simp: isDiffLine_def)
next
  case skip
  have "mapLast id (diffFiles st) = diffFiles st"
    by (cases "diffFiles st = []") (simp_all add: mapLast_eq)
  then have "diffFiles st' = mapLast id (diffFiles st)"
    using skip by (simp add: bumped_def)
  then show ?thesis using skip(1) by (auto simp: isDiffLine_def)
qed

lemma loop_file_count:
  assumes "loop lines i ls st = Ok st'"
  shows "length (diffFiles st') = length (diffFiles st) + length (filter isDiffLine ls)"
  using assms
proof (induction ls arbitrary: i st)
  case Nil
  then show ?case by simp
next
  case (Cons l ls)
  from Cons.prems obtain s1 where s1: "step lines i st l = Ok s1"
    and r: "loop lines (Suc i) ls s1 = Ok st'"
    by (auto split: result.splits)
  from step_files[OF s1] have "length (diffFiles s1) = length (diffFiles st) + (if isDiffLine l then 1 else 0)"
    by (auto simp: length_mapLast split: if_splits)
  with Cons.IH[OF r] show ?case by simp
qed

text \<open>The file entries before the last one are never written again.\<close>

lemma loop_keeps_earlier_files:
  assumes "loop lines i ls st = Ok st'"
  shows "\<exists>ys. diffFiles st' = butlast (diffFiles st) @ ys \<and> (diffFiles st \<noteq> [] \<longrightarrow> ys \<noteq> [])"
  using assms
proof (induction ls arbitrary: i st)
  case Nil
  then show ?case by (cases "diffFiles st = []") (auto intro: exI[of _ "[last (diffFiles st)]"])
next
  case (Cons l ls)
  from Cons.prems obtain s1 where s1: "step lines i st l = Ok s1"
    and r: "loop lines (Suc i) ls s1 = Ok st'"
    by (auto split: result.splits)
  from Cons.IH[OF r] obtain ys where ys: "diffFiles st' = butlast (diffFiles s1) @ ys"
    "diffFiles s1 \<noteq> [] \<longrightarrow> ys \<noteq> []" by blast
  show ?case
  proof (cases "isDiffLine l")
    case True
    with step_files[OF s1] obtain f where "diffFiles s1 = diffFiles st @ [f]" by auto
    with ys have "diffFiles st' = diffFiles st @ ys" "ys \<noteq> []" by simp_all
    then show ?thesis
      by (cases "diffFiles st = []") (auto intro: exI[of _ "last (diffFiles st) # ys"])
  next
    case False
    with step_files[OF s1] obtain g where "diffFiles s1 = mapLast g (diffFiles st)" by auto
    then have "butlast (diffFiles s1) = butlast (diffFiles st)" "(diffFiles s1 = []) = (diffFiles st = [])"
      by (simp_all add: butlast_mapLast mapLast_Nil_iff)
    with ys show ?thesis by auto
  qed
qed

lemma loop_OkE:
  assumes "loop lines i (xs @ ys) st = Ok st'"
  obtains s1 where "loop lines i xs st = Ok s1" "loop lines (i + length xs) ys s1 = Ok st'"
  using assms by (auto simp: loop_append split: result.splits)

lemma loop_ConsE:
  assumes "loop lines i (x # xs) st = Ok st'"
  obtains s1 where "step lines i st x = Ok s1" "loop lines (Suc i) xs s1 = Ok st'"
  using assms by (auto split: result.splits)

text \<open>
  Over the lines of one file section the file entries before the last stay as they are,
  and the mode and the names of the last one are those the lines set.
\<close>

lemma lastSet_Nil: "lastSet f d [] = d"
  by (simp add: lastSet_def)

lemma lastSet_Cons: "lastSet f d (l # ls) = lastSet f (case f l of None \<Rightarrow> d | Some y \<Rightarrow> y) ls"
  by (simp add: lastSet_def)

lemma lastSet_none: "\<forall>l\<in>set ls. f l = None \<Longrightarrow> lastSet f d ls = d"
  by (induction ls arbitrary: d) (simp_all add: lastSet_Nil lastSet_Cons)

lemma lastSet_mem: "lastSet f d ls \<noteq> d \<Longrightarrow> \<exists>l\<in>set ls. f l = Some (lastSet f d ls)"
proof (induction ls arbitrary: d)
  case Nil
  then show ?case by (simp add: lastSet_Nil)
next
  case (Cons l ls)
  show ?case
  proof (cases "f l")
    case None
    with Cons show ?thesis by (auto simp: lastSet_Cons)
  next
    case (Some y)
    show ?thesis
    proof (cases "lastSet f y ls = y")
      case True
      then show ?thesis using Some by (simp add: lastSet_Cons)
    next
      case False
      from Cons.IH[OF this] show ?thesis using Some by (auto simp: lastSet_Cons)
    qed
  qed
qed

lemma step_similarity:
  assumes "diffFiles st \<noteq> []" "HasPrefix l ''similarity index ''"
  shows "step lines idx st l =
     Ok ((bumped st)\<lparr>diffFiles :=
           mapLast (\<lambda>f. f\<lparr>Mode := FileModeRenamed,
                            SimilarityIndex := fst (Atoi (TrimSuffix (drop 17 l) ''%''))\<rparr>)
             (diffFiles st)\<rparr>)"
proof -
  from assms(2) obtain r where l: "l = ''similarity index '' @ r" by (auto simp: HasPrefix_iff)
  show ?thesis
    using assms(1) unfolding l
    by (simp add: step_def bumped_def Let_def withFile_def HasPrefix_def TrimPrefix_def
        similarityPrefix_def)
qed

lemmas prefix_defs = HasPrefix_def TrimPrefix_def similarityPrefix_def oldFilePrefix_def
  newFilePrefix_def renameFromPrefix_def renameToPrefix_def binaryPrefix_def

lemma step_section_fields:
  assumes "step lines idx st l = Ok st'" "\<not> isDiffLine l" "diffFiles st \<noteq> []"
  shows "diffFiles st' \<noteq> [] \<and> butlast (diffFiles st') = butlast (diffFiles st)
     \<and> Mode (last (diffFiles st')) =
          (case modeSetBy l of None \<Rightarrow> Mode (last (diffFiles st)) | Some m \<Rightarrow> m)
     \<and> OrigName (last (diffFiles st')) =
          (case origNameSetBy l of None \<Rightarrow> OrigName (last (diffFiles st)) | Some n \<Rightarrow> n)
     \<and> NewName (last (diffFiles st')) =
          (case newNameSetBy l of None \<Rightarrow> NewName (last (diffFiles st)) | Some n \<Rightarrow> n)"
proof -
  note ne = assms(3)
  note ml = mapLast_Nil_iff butlast_mapLast last_mapLast bumped_def
  consider (delNull) "l = ''+++ /dev/null''" | (newNull) "l = ''--- /dev/null''"
    | (sim) "HasPrefix l ''similarity index ''"
    | (old) "HasPrefix l ''--- ''" "l \<noteq> ''--- /dev/null''"
    | (new) "HasPrefix l ''+++ ''" "l \<noteq> ''+++ /dev/null''"
    | (rfrom) "HasPrefix l ''rename from ''"
    | (rto) "HasPrefix l ''rename to ''"
    | (bin) "HasPrefix l ''Binary files ''"
    | (other) "l \<noteq> ''+++ /dev/null''" "l \<noteq> ''--- /dev/null''"
        "\<not> HasPrefix l ''similarity index ''" "\<not> HasPrefix l ''--- ''" "\<not> HasPrefix l ''+++ ''"
        "\<not> HasPrefix l ''rename from ''" "\<not> HasPrefix l ''rename to ''"
        "\<not> HasPrefix l ''Binary files ''"
    by blast
  then show ?thesis
  proof cases
    case delNull
    have "modeSetBy l = Some FileModeDeleted" "origNameSetBy l = None" "newNameSetBy l = None"
      unfolding delNull by (simp_all add: modeSetBy_def origNameSetBy_def newNameSetBy_def prefix_defs)
    then show ?thesis
      using assms(1) ne step_devNull(2)[OF ne, of lines idx] by (auto simp: delNull ml)
  next
    case newNull
    have "modeSetBy l = Some FileModeNew" "origNameSetBy l = None" "newNameSetBy l = None"
      unfolding newNull by (simp_all add: modeSetBy_def origNameSetBy_def newNameSetBy_def prefix_defs)
    then show ?thesis
      using assms(1) ne step_devNull(1)[OF ne, of lines idx] by (auto simp: newNull ml)
  next
    case sim
    then obtain r where l: "l = ''similarity index '' @ r" by (auto simp: HasPrefix_iff)
    have "modeSetBy l = Some FileModeRenamed" "origNameSetBy l = None" "newNameSetBy l = None"
      unfolding l by (simp_all add: modeSetBy_def origNameSetBy_def newNameSetBy_def prefix_defs)
    then show ?thesis
      using assms(1) ne step_similarity[OF ne sim, of lines idx] by (auto simp: ml)
  next
    case old
    then obtain r where l: "l = ''--- '' @ r" by (auto simp: HasPrefix_iff)
    have "modeSetBy l = None" "origNameSetBy l = Some (parseFileName (drop 4 l))" "newNameSetBy l = None"
      using old(2) unfolding l
      by (simp_all add: modeSetBy_def origNameSetBy_def newNameSetBy_def prefix_defs)
    then show ?thesis
      using assms(1) ne step_oldFile[OF ne old, of lines idx] by (auto simp: ml)
  next
    case new
    then obtain r where l: "l = ''+++ '' @ r" by (auto simp: HasPrefix_iff)
    have "modeSetBy l = None" "origNameSetBy l = None" "newNameSetBy l = Some (parseFileName (drop 4 l))"
      using new(2) unfolding l
      by (simp_all add: modeSetBy_def origNameSetBy_def newNameSetBy_def prefix_defs)
    then show ?thesis
      using assms(1) ne step_newFile[OF ne new, of lines idx] by (auto simp: ml)
  next
    case rfrom
    then obtain r where l: "l = ''rename from '' @ r" by (auto simp: HasPrefix_iff)
    have "modeSetBy l = None" "origNameSetBy l = Some (parseFileName (drop 12 l))" "newNameSetBy l = None"
      unfolding l
      by (simp_all add: modeSetBy_def origNameSetBy_def newNameSetBy_def prefix_defs)
    then show ?thesis
      using assms(1) ne step_renameFrom[OF ne rfrom, of lines idx] by (auto simp: ml)
  next
    case rto
    then obtain r where l: "l = ''rename to '' @ r" by (auto simp: HasPrefix_iff)
    have "modeSetBy l = None" "origNameSetBy l = None" "newNameSetBy l = Some (parseFileName (drop 10 l))"
      unfolding l
      by (simp_all add: modeSetBy_def origNameSetBy_def newNameSetBy_def prefix_defs)
    then show ?thesis
      using assms(1) ne step_renameTo[OF ne rto, of lines idx] by (auto simp: ml)
  next
    case bin
    then obtain r where l: "l = ''Binary files '' @ r" by (auto simp: HasPrefix_iff)
    have b: "binaryNames l = Split (TrimSuffix (drop 13 l) '' differ'') '' and ''"
      unfolding l by (simp add: binaryNames_def prefix_defs)
    have "modeSetBy l = Some FileModeModified"
      "origNameSetBy l = Some (parseFileName (binaryNames l ! 0))"
      "newNameSetBy l = Some (parseFileName (binaryNames l ! 1))"
      unfolding l
      by (simp_all add: modeSetBy_def origNameSetBy_def newNameSetBy_def prefix_defs)
    then show ?thesis
      using assms(1) ne step_binary[OF ne bin, of lines idx]
      by (auto simp: ml b Let_def split: if_splits)
  next
    case other
    have n: "modeSetBy l = None" "origNameSetBy l = None" "newNameSetBy l = None"
      using other
      by (simp_all add: modeSetBy_def origNameSetBy_def newNameSetBy_def similarityPrefix_def
          oldFilePrefix_def newFilePrefix_def renameFromPrefix_def renameToPrefix_def binaryPrefix_def)
    have nd: "\<not> HasPrefix l ''diff ''" using assms(2) by (simp add: isDiffLine_def)
    have s: "step lines idx st l =
        (if HasPrefix l ''@@ '' then hunkHeaderLine (bumped st) l
         else if inHunk st \<and> isSourceLine l then sourceLine (bumped st) l
         else Ok (bumped st))"
      using other nd
      by (simp add: step_def bumped_def Let_def similarityPrefix_def
          oldFilePrefix_def newFilePrefix_def renameFromPrefix_def renameToPrefix_def binaryPrefix_def)
    consider (hunk) "hunkHeaderLine (bumped st) l = Ok st'"
      | (source) "sourceLine (bumped st) l = Ok st'"
      | (skip) "st' = bumped st"
    proof (cases "HasPrefix l ''@@ ''")
      case True
      with s assms(1) have "hunkHeaderLine (bumped st) l = Ok st'" by simp
      then show ?thesis by (rule hunk)
    next
      case h: False
      show ?thesis
      proof (cases "inHunk st \<and> isSourceLine l")
        case True
        with s h assms(1) have "sourceLine (bumped st) l = Ok st'" by simp
        then show ?thesis by (rule source)
      next
        case False
        with s h assms(1) have "st' = bumped st" by simp
        then show ?thesis by (rule skip)
      qed
    qed
    then show ?thesis
    proof cases
      case hunk
      then show ?thesis
        by (cases rule: hunkHeaderLine_Ok) (use ne n in \<open>simp add: ml\<close>)
    next
      case source
      then show ?thesis
        by (cases rule: sourceLine_cases) (use ne n in \<open>simp_all add: ml withHunk_def\<close>)
    next
      case skip
      then show ?thesis using ne n by (simp add: bumped_def)
    qed
  qed
qed

lemma loop_section_fields:
  assumes "loop lines i sec st = Ok st'" "\<forall>l\<in>set sec. \<not> isDiffLine l" "diffFiles st \<noteq> []"
  shows "diffFiles st' \<noteq> [] \<and> butlast (diffFiles st') = butlast (diffFiles st)
         \<and> Mode (last (diffFiles st')) = lastSet modeSetBy (Mode (last (diffFiles st))) sec
         \<and> OrigName (last (diffFiles st')) = lastSet origNameSetBy (OrigName (last (diffFiles st))) sec
         \<and> NewName (last (diffFiles st')) = lastSet newNameSetBy (NewName (last (diffFiles st))) sec"
  using assms
proof (induction sec arbitrary: i st)
  case Nil
  then show ?case by (simp add: lastSet_Nil)
next
  case (Cons l ls)
  from Cons.prems(1) obtain s1 where s1: "step lines i st l = Ok s1"
    and r: "loop lines (Suc i) ls s1 = Ok st'"
    by (rule loop_ConsE)
  from Cons.prems(2) have nd: "\<not> isDiffLine l" "\<forall>l\<in>set ls. \<not> isDiffLine l" by simp_all
  note f = step_section_fields[OF s1 nd(1) Cons.prems(3)]
  from f have ne1: "diffFiles s1 \<noteq> []" by simp
  from Cons.IH[OF r nd(2) ne1] f show ?case
    by (simp add: lastSet_Cons)
qed

lemma modeSetBy_Deleted: "modeSetBy l = Some FileModeDeleted \<Longrightarrow> l = ''+++ /dev/null''"
  by (simp add: modeSetBy_def split: if_splits)

lemma modeSetBy_New: "modeSetBy l = Some FileModeNew \<Longrightarrow> l = ''--- /dev/null''"
  by (simp add: modeSetBy_def split: if_splits)

lemma modeSetBy_Renamed: "modeSetBy l = Some FileModeRenamed \<Longrightarrow> HasPrefix l similarityPrefix"
  by (simp add: modeSetBy_def split: if_splits)

section \<open>When a hunk is active\<close>

text \<open>
  The variable \<open>inHunk\<close> is set by a hunk header line and cleared by a \<open>diff\<close> line;
  no other line writes it.
\<close>

lemma step_inHunk:
  assumes "step lines idx st l = Ok st'"
  shows "inHunk st' =
           (if HasPrefix l ''diff '' then False else if HasPrefix l ''@@ '' then True else inHunk st)"
proof (cases "HasPrefix l ''@@ ''")
  case True
  then have nd: "\<not> HasPrefix l ''diff ''" by (auto simp: HasPrefix_iff)
  from True assms have "hunkHeaderLine (bumped st) l = Ok st'" by (simp add: step_hunk_header)
  then show ?thesis
    by (cases rule: hunkHeaderLine_Ok) (simp add: True nd)
next
  case False
  from assms show ?thesis
  proof (cases rule: step_cases)
    case (newFile f)
    then show ?thesis by simp
  next
    case (header g)
    then show ?thesis using False by (simp add: bumped_def)
  next
    case hunk
    then show ?thesis using False by simp
  next
    case source
    from source(4) show ?thesis
      by (cases rule: sourceLine_cases) (simp_all add: False source(1) withHunk_def bumped_def)
  next
    case skip
    then show ?thesis using False by (simp add: bumped_def)
  qed
qed

lemma loop_inHunk:
  assumes "loop lines i ls st = Ok st'"
  shows "inHunk st' = hunkOpen (inHunk st) ls"
  using assms
proof (induction ls arbitrary: i st)
  case Nil
  then show ?case by (simp add: hunkOpen_def)
next
  case (Cons l ls)
  from Cons.prems obtain s1 where s1: "step lines i st l = Ok s1"
    and r: "loop lines (Suc i) ls s1 = Ok st'"
    by (rule loop_ConsE)
  from Cons.IH[OF r] step_inHunk[OF s1] show ?case
    by (simp add: hunkOpen_def)
qed

section \<open>The map \<open>Changed\<close> builds\<close>

lemma foldl_append_lookup:
  assumes upd: "\<And>m x k'. upd m x k' =
      (if k' = key x \<and> ns x \<noteq> [] then Some (entry m (key x) @ ns x) else m k')"
  shows "foldl upd m xs k =
      (if concat (map ns (filter (\<lambda>x. key x = k) xs)) = [] then m k
       else Some (entry m k @ concat (map ns (filter (\<lambda>x. key x = k) xs))))"
proof (induction xs arbitrary: m)
  case Nil
  show ?case by simp
next
  case (Cons x xs)
  have e: "entry (upd m x) k = (if key x = k then entry m k @ ns x else entry m k)"
    by (simp add: entry_def upd)
  have "foldl upd m (x # xs) k = foldl upd (upd m x) xs k"
    by simp
  also have "\<dots> =
      (if concat (map ns (filter (\<lambda>x. key x = k) xs)) = [] then upd m x k
       else Some (entry (upd m x) k @ concat (map ns (filter (\<lambda>x. key x = k) xs))))"
    by (rule Cons.IH)
  also have "\<dots> =
      (if concat (map ns (filter (\<lambda>x. key x = k) (x # xs))) = [] then m k
       else Some (entry m k @ concat (map ns (filter (\<lambda>x. key x = k) (x # xs)))))"
    by (simp add: e upd)
  finally show ?case .
qed

lemma concat_added:
  "concat (map (\<lambda>dl. if LineMode dl = DiffLineModeAdded then [Number dl] else []) dls) =
     map Number (filter (\<lambda>dl. LineMode dl = DiffLineModeAdded) dls)"
  by (induction dls) auto

lemma changedLines_lookup:
  "changedLines m k dls k' =
     (if k' = k \<and> map Number (filter (\<lambda>dl. LineMode dl = DiffLineModeAdded) dls) \<noteq> []
      then Some (entry m k @ map Number (filter (\<lambda>dl. LineMode dl = DiffLineModeAdded) dls))
      else m k')"
proof -
  have "foldl (\<lambda>m dl. if LineMode dl = DiffLineModeAdded
                       then changedAppend m k (Number dl) else m) m dls k' =
      (if concat (map (\<lambda>dl. if LineMode dl = DiffLineModeAdded then [Number dl] else [])
                    (filter (\<lambda>x. k = k') dls)) = [] then m k'
       else Some (entry m k' @
              concat (map (\<lambda>dl. if LineMode dl = DiffLineModeAdded then [Number dl] else [])
                    (filter (\<lambda>x. k = k') dls))))"
    by (rule foldl_append_lookup) (simp add: changedAppend_def entry_def)
  then show ?thesis
    unfolding changedLines_def by (cases "k = k'") (simp_all add: concat_added)
qed

lemma map_filter_concat:
  "concat (map (\<lambda>h. map Number (filter P (Lines (NewRange h)))) hs) =
     map Number (filter P (concat (map (\<lambda>h. Lines (NewRange h)) hs)))"
  by (induction hs) auto

lemma changedHunks_lookup:
  "foldl (\<lambda>m h. changedLines m k (Lines (NewRange h))) m hs k' =
     (if k' = k \<and> map Number (filter (\<lambda>dl. LineMode dl = DiffLineModeAdded)
                 (concat (map (\<lambda>h. Lines (NewRange h)) hs))) \<noteq> []
      then Some (entry m k @ map Number (filter (\<lambda>dl. LineMode dl = DiffLineModeAdded)
                 (concat (map (\<lambda>h. Lines (NewRange h)) hs))))
      else m k')"
proof -
  have "foldl (\<lambda>m h. changedLines m k (Lines (NewRange h))) m hs k' =
      (if concat (map (\<lambda>h. map Number (filter (\<lambda>dl. LineMode dl = DiffLineModeAdded)
                                          (Lines (NewRange h))))
                    (filter (\<lambda>x. k = k') hs)) = [] then m k'
       else Some (entry m k' @
              concat (map (\<lambda>h. map Number (filter (\<lambda>dl. LineMode dl = DiffLineModeAdded)
                                          (Lines (NewRange h))))
                    (filter (\<lambda>x. k = k') hs))))"
    by (rule foldl_append_lookup) (simp add: changedLines_lookup)
  then show ?thesis
    by (cases "k = k'") (simp_all add: map_filter_concat)
qed

lemma changedFile_lookup:
  "changedFile m f k =
     (if k = NewName f \<and> (if Mode f = FileModeDeleted then [] else addedNumbers f) \<noteq> []
      then Some (entry m (NewName f) @
                  (if Mode f = FileModeDeleted then [] else addedNumbers f))
      else m k)"
  by (simp add: changedFile_def changedHunks_lookup addedNumbers_def)

lemma concat_kept:
  "concat (map (\<lambda>f. if Mode f = FileModeDeleted then [] else addedNumbers f)
            (filter (\<lambda>f. NewName f = k) fs)) =
   concat (map addedNumbers (filter (\<lambda>f. Mode f \<noteq> FileModeDeleted \<and> NewName f = k) fs))"
  by (induction fs) auto

section \<open>The claims\<close>

subsection \<open>C1: the new-file scenario\<close>

text \<open>
  After a \<open>diff\<close> line, which opens a file entry, the lines of the scenario give the
  entry the scenario describes.
\<close>

lemma Parse_new_file_after_diff_line:
  "map_result (\<lambda>d. map fileModeAndNames (Files d))
     (Parse ''diff --git a/file4 b/file4\<newline>--- /dev/null\<newline>+++ b/file4\<newline>@@ -0,0 +1,1 @@\<newline>+hello\<newline>'')
   = Ok [(FileModeNew, [], ''file4'')]"
  by code_simp

text \<open>
  C1 (the code at the failing input). On the input of the scenario,
  \<open>"--- /dev/null\n+++ b/file4\n@@ -0,0 +1,1 @@\n+hello\n"\<close>, which has no \<open>diff\<close> line,
  \<open>Parse\<close> returns neither a \<open>Diff\<close> nor an error: the first line assigns
  \<open>file.Mode\<close> through the nil \<open>file\<close> and \<open>Parse\<close> panics.
\<close>

theorem Parse_new_file_without_diff_line_panics:
  "Parse ''--- /dev/null\<newline>+++ b/file4\<newline>@@ -0,0 +1,1 @@\<newline>+hello\<newline>'' = Panic"
  by code_simp

subsection \<open>C2: the default of an omitted count\<close>

text \<open>
  C2 (the code at the failing input). For the header \<open>@@ -5 +7 @@\<close>, where both
  counts are omitted, the hunk's \<open>OrigRange.Length\<close> is 5 and its \<open>NewRange.Length\<close>
  is 7: an omitted count takes the value of the start, not 1.
\<close>

theorem omitted_count_takes_the_start:
  "map_result (\<lambda>d. map (\<lambda>f. map hunkRanges (Hunks f)) (Files d))
     (Parse ''diff --git a/f b/f\<newline>@@ -5 +7 @@\<newline>-a\<newline>+b'')
   = Ok [[((5, 5), (7, 7))]]"
  by code_simp

subsection \<open>C3: positions\<close>




subsection \<open>C4: line numbers\<close>

text \<open>
  A start at the largest \<open>int\<close> is accepted, and the number of the next line wraps
  around to the smallest.
\<close>

theorem line_numbers_wrap_around:
  "map_result (\<lambda>d. map (\<lambda>f. map (\<lambda>h. lineNumbers (NewRange h)) (Hunks f)) (Files d))
     (Parse ''diff --git a/f b/f\<newline>@@ -1 +9223372036854775807 @@\<newline>+a\<newline>+b'')
   = Ok [[[9223372036854775807, - 9223372036854775808]]]"
  by code_simp

text \<open>
  C4 (amended). For every successfully parsed diff and every hunk in it, if the numbers
  of \<open>NewRange\<close> fit the 64-bit \<open>int\<close> (\<open>Start\<close> plus the number of lines is at most
  \<open>2^63\<close>), the \<open>Number\<close> fields of \<open>NewRange.Lines\<close> are \<open>Start, Start + 1, ...\<close>: a
  strictly increasing sequence whose first element, when there is one, is
  \<open>NewRange.Start\<close>. Likewise for \<open>OrigRange\<close>.
\<close>

theorem line_numbers_count_up_from_start:
  assumes "Parse s = Ok d" and "f \<in> set (Files d)" and "h \<in> set (Hunks f)"
    and "r = NewRange h \<or> r = OrigRange h" and "fitsInt r"
  shows "lineNumbers r = map (\<lambda>k. Start r + int k) [0..<length (Lines r)]
         \<and> sorted_wrt (<) (lineNumbers r)
         \<and> (Lines r \<noteq> [] \<longrightarrow> hd (lineNumbers r) = Start r)"
proof -
  from assms(1) obtain st where st: "loop (Split s [NL]) 0 (Split s [NL]) initState = Ok st"
    and d: "d = \<lparr>Files = diffFiles st, Raw = s, PullID = 0\<rparr>"
    by (auto simp: Parse_def Let_def split: result.splits)
  have "numbersInv st"
    using numbersInv_loop[OF st numbersInv_init] .
  then have "counted r"
    using assms(2,3,4) d by (auto simp: numbersInv_def)
  from counted_fits[OF this assms(5)]
  have n: "lineNumbers r = map (\<lambda>k. Start r + int k) [0..<length (Lines r)]" .
  have h: "hd (lineNumbers r) = Start r" if "Lines r \<noteq> []"
    using that unfolding n by (simp add: hd_map upt_conv_Cons)
  show ?thesis
    using n h consecutive_sorted[of "Start r" "length (Lines r)"] by simp
qed

theorem line_numbers_count_up_from_start_witness:
  "\<exists>d f h. Parse ''diff --git a/file1 b/file1\<newline>--- a/file1\<newline>+++ b/file1\<newline>@@ -1,4 +1,4 @@\<newline>+add a line\<newline> some\<newline> lines\<newline>-in\<newline> file1\<newline>'' = Ok d
     \<and> f \<in> set (Files d) \<and> h \<in> set (Hunks f) \<and> fitsInt (NewRange h)
     \<and> Start (NewRange h) = 1
     \<and> lineNumbers (NewRange h) = [1, 2, 3, 4]
     \<and> sorted_wrt (<) (lineNumbers (NewRange h))
     \<and> hd (lineNumbers (NewRange h)) = Start (NewRange h)"
proof -
  let ?s = "''diff --git a/file1 b/file1\<newline>--- a/file1\<newline>+++ b/file1\<newline>@@ -1,4 +1,4 @@\<newline>+add a line\<newline> some\<newline> lines\<newline>-in\<newline> file1\<newline>''"
  have "map_result (\<lambda>d. map (\<lambda>f. map (\<lambda>h. (fitsInt (NewRange h), Start (NewRange h), lineNumbers (NewRange h))) (Hunks f)) (Files d))
          (Parse ?s) = Ok [[(True, 1, [1, 2, 3, 4])]]"
    by code_simp
  then obtain d where d: "Parse ?s = Ok d"
    and m: "map (\<lambda>f. map (\<lambda>h. (fitsInt (NewRange h), Start (NewRange h), lineNumbers (NewRange h))) (Hunks f)) (Files d)
              = [[(True, 1, [1, 2, 3, 4])]]"
    by (rule map_result_OkE)
  from m obtain f where f: "f \<in> set (Files d)"
    and mh: "map (\<lambda>h. (fitsInt (NewRange h), Start (NewRange h), lineNumbers (NewRange h))) (Hunks f) = [(True, 1, [1, 2, 3, 4])]"
    by (auto simp: map_eq_Cons_conv)
  from mh obtain h where h: "h \<in> set (Hunks f)" and fits: "fitsInt (NewRange h)"
    and st: "Start (NewRange h) = 1" and ln: "lineNumbers (NewRange h) = [1, 2, 3, 4]"
    by (auto simp: map_eq_Cons_conv)
  have ne: "Lines (NewRange h) \<noteq> []" using ln by (auto simp: lineNumbers_def)
  have r: "NewRange h = NewRange h \<or> NewRange h = OrigRange h"
    by simp
  from line_numbers_count_up_from_start[OF d f h r fits] ne
  have "sorted_wrt (<) (lineNumbers (NewRange h))" "hd (lineNumbers (NewRange h)) = Start (NewRange h)"
    by blast+
  with d f h fits st ln show ?thesis by blast
qed

subsection \<open>C5: a line the classifier does not know\<close>

text \<open>
  A line that begins with a byte other than a space, \<open>+\<close> or \<open>-\<close> is not always fatal
  inside a hunk: the \<open>diff\<close> line of the next file is such a line, and it opens the
  next file entry.
\<close>

theorem diff_line_in_hunk_is_not_fatal:
  "map_result inHunk
        (loop (Split ''diff --git a/f b/f\<newline>@@ -1 +1 @@\<newline>-a\<newline>+b\<newline>diff --git a/g b/g\<newline>'' [NL]) 0
           [''diff --git a/f b/f'', ''@@ -1 +1 @@'', ''-a'', ''+b''] initState) = Ok True
   \<and> Split ''diff --git a/f b/f\<newline>@@ -1 +1 @@\<newline>-a\<newline>+b\<newline>diff --git a/g b/g\<newline>'' [NL]
      = [''diff --git a/f b/f'', ''@@ -1 +1 @@'', ''-a'', ''+b''] @ ''diff --git a/g b/g'' # ['''']
   \<and> hunkOpen False [''diff --git a/f b/f'', ''@@ -1 +1 @@'', ''-a'', ''+b'']
   \<and> unknownModeLine ''diff --git a/g b/g''
   \<and> map_result (\<lambda>d. length (Files d)) (Parse ''diff --git a/f b/f\<newline>@@ -1 +1 @@\<newline>-a\<newline>+b\<newline>diff --git a/g b/g\<newline>'') = Ok 2"
  by code_simp

text \<open>
  C5 (amended). Let the lines before \<open>l\<close> be processed without failure and let a hunk
  be open there: a hunk header line came after the last \<open>diff\<close> line, which is when
  \<open>inHunk\<close> holds. If \<open>l\<close> is not empty, begins with a byte other than a space, \<open>+\<close>
  or \<open>-\<close>, is not the no-newline marker and does not begin with one of the prefixes
  the earlier cases recognise (\<open>diff \<close>, \<open>similarity index \<close>, \<open>rename from \<close>,
  \<open>rename to \<close>, \<open>Binary files \<close>, \<open>@@ \<close>), then \<open>Parse\<close> returns the line-mode error
  for \<open>l\<close> and no \<open>Diff\<close>, whatever follows \<open>l\<close>.
\<close>

theorem unknown_line_mode_in_hunk_is_fatal:
  assumes "Split s [NL] = pre @ l # post"
    and "loop (Split s [NL]) 0 pre initState = Ok st"
    and "hunkOpen False pre"
    and "unknownModeLine l"
    and "\<not> headerPrefixed l"
  shows "inHunk st \<and> Parse s = Err (ErrLineMode l)"
proof -
  have ih: "inHunk st"
    using loop_inHunk[OF assms(2)] assms(3) by (simp add: initState_def)
  have "loop (Split s [NL]) 0 (pre @ l # post) initState = Err (ErrLineMode l)"
    using assms(2) step_unknownModeLine[OF ih assms(4,5)]
    by (simp add: loop_append)
  then show ?thesis
    using assms(1) ih by (simp add: Parse_def Let_def)
qed

theorem unknown_line_mode_in_hunk_is_fatal_witness:
  "Split ''diff --git a/f b/f\<newline>@@ -1 +1 @@\<newline>-a\<newline>junk\<newline>+b'' [NL]
     = [''diff --git a/f b/f'', ''@@ -1 +1 @@'', ''-a''] @ ''junk'' # [''+b'']
   \<and> map_result inHunk
        (loop (Split ''diff --git a/f b/f\<newline>@@ -1 +1 @@\<newline>-a\<newline>junk\<newline>+b'' [NL]) 0
           [''diff --git a/f b/f'', ''@@ -1 +1 @@'', ''-a''] initState) = Ok True
   \<and> hunkOpen False [''diff --git a/f b/f'', ''@@ -1 +1 @@'', ''-a'']
   \<and> unknownModeLine ''junk'' \<and> \<not> headerPrefixed ''junk''
   \<and> Parse ''diff --git a/f b/f\<newline>@@ -1 +1 @@\<newline>-a\<newline>junk\<newline>+b'' = Err (ErrLineMode ''junk'')"
proof -
  let ?s = "''diff --git a/f b/f\<newline>@@ -1 +1 @@\<newline>-a\<newline>junk\<newline>+b''"
  let ?pre = "[''diff --git a/f b/f'', ''@@ -1 +1 @@'', ''-a'']"
  have h1: "Split ?s [NL] = ?pre @ ''junk'' # [''+b'']" by code_simp
  have h2: "map_result inHunk (loop (Split ?s [NL]) 0 ?pre initState) = Ok True" by code_simp
  then obtain st where st: "loop (Split ?s [NL]) 0 ?pre initState = Ok st"
    by (rule map_result_OkE)
  have h3: "hunkOpen False ?pre" by code_simp
  have h4: "unknownModeLine ''junk''" by code_simp
  have h5: "\<not> headerPrefixed ''junk''" by code_simp
  from unknown_line_mode_in_hunk_is_fatal[OF h1 st h3 h4 h5] h1 h2 h3 h4 h5
  show ?thesis by simp
qed

subsection \<open>C6: file mode and names\<close>

text \<open>
  The mode and the names of a file entry are set by different lines and are not
  reconciled: an exact copy (\<open>similarity index\<close> with \<open>copy from\<close> and \<open>copy to\<close>)
  is \<open>Renamed\<close> with both names empty, and a \<open>+++ /dev/null\<close> line after a
  \<open>+++ b/f\<close> line leaves a \<open>Deleted\<close> entry with \<open>NewName\<close> \<open>f\<close>.
\<close>

theorem mode_and_names_are_independent:
  "map_result (\<lambda>d. map fileModeAndNames (Files d))
     (Parse ''diff --git a/a.txt b/b.txt\<newline>similarity index 100%\<newline>copy from a.txt\<newline>copy to b.txt\<newline>diff --git a/f b/f\<newline>--- a/f\<newline>+++ b/f\<newline>+++ /dev/null\<newline>'')
   = Ok [(FileModeRenamed, [], []), (FileModeDeleted, ''f'', ''f'')]"
  by code_simp

text \<open>
  C6 (amended). Let \<open>Parse\<close> succeed. The file entries are those the \<open>diff\<close> lines
  open, in their order. Let an entry be opened by the \<open>diff\<close> line \<open>dl\<close>, its section
  \<open>sec\<close> being the lines up to the next \<open>diff\<close> line or the end of the input. Then
  its \<open>Mode\<close> is the one set by the last line of \<open>sec\<close> that sets a mode
  (\<open>+++ /dev/null\<close> \<open>Deleted\<close>, \<open>--- /dev/null\<close> \<open>New\<close>, a \<open>similarity index \<close> line
  \<open>Renamed\<close>, a \<open>Binary files \<close> line \<open>Modified\<close>), and \<open>Modified\<close> when there is none;
  its \<open>OrigName\<close> is the one set by the last line of \<open>sec\<close> that sets it (a \<open>--- \<close>
  line other than \<open>--- /dev/null\<close>, a \<open>rename from \<close> line, a \<open>Binary files \<close> line),
  and empty when there is none; its \<open>NewName\<close> likewise (a \<open>+++ \<close> line other than
  \<open>+++ /dev/null\<close>, a \<open>rename to \<close> line, a \<open>Binary files \<close> line). Hence: if \<open>Mode\<close>
  is \<open>Deleted\<close>, the section has the line \<open>+++ /dev/null\<close>, and \<open>NewName\<close> is empty
  provided no line of the section sets it; if \<open>Mode\<close> is \<open>New\<close>, the section has the
  line \<open>--- /dev/null\<close>, and \<open>OrigName\<close> is empty provided no line of the section sets
  it; if \<open>Mode\<close> is \<open>Renamed\<close>, the section has a \<open>similarity index \<close> line, and the
  names are, as said, those the last lines that set them give: the two names of the
  \<open>rename from \<close> and \<open>rename to \<close> (or \<open>--- \<close> and \<open>+++ \<close>) lines of a rename, and
  both empty when the section has no such line.
\<close>

theorem mode_and_names_are_set_by_the_section:
  assumes "Parse s = Ok d"
    and "Split s [NL] = pre @ dl # sec @ post"
    and "isDiffLine dl"
    and "\<forall>l\<in>set sec. \<not> isDiffLine l"
    and "post = [] \<or> isDiffLine (hd post)"
  shows "length (Files d) = length (filter isDiffLine (Split s [NL]))
         \<and> length (filter isDiffLine pre) < length (Files d)
         \<and> Mode (entryAfter d pre) = lastSet modeSetBy FileModeModified sec
         \<and> OrigName (entryAfter d pre) = lastSet origNameSetBy [] sec
         \<and> NewName (entryAfter d pre) = lastSet newNameSetBy [] sec
         \<and> (Mode (entryAfter d pre) = FileModeDeleted \<longrightarrow>
              ''+++ /dev/null'' \<in> set sec
              \<and> ((\<forall>l\<in>set sec. newNameSetBy l = None) \<longrightarrow> NewName (entryAfter d pre) = []))
         \<and> (Mode (entryAfter d pre) = FileModeNew \<longrightarrow>
              ''--- /dev/null'' \<in> set sec
              \<and> ((\<forall>l\<in>set sec. origNameSetBy l = None) \<longrightarrow> OrigName (entryAfter d pre) = []))
         \<and> (Mode (entryAfter d pre) = FileModeRenamed \<longrightarrow>
              (\<exists>l\<in>set sec. HasPrefix l similarityPrefix))"
proof -
  define L where "L = Split s [NL]"
  define k where "k = length (filter isDiffLine pre)"
  define e where "e = entryAfter d pre"
  from assms(1) obtain st where st: "loop L 0 L initState = Ok st"
    and d: "Files d = diffFiles st"
    by (auto simp: Parse_def Let_def L_def split: result.splits)
  have cnt: "length (Files d) = length (filter isDiffLine L)"
    using loop_file_count[OF st] d by (simp add: initState_def)
  from st have "loop L 0 (pre @ dl # sec @ post) initState = Ok st"
    using assms(2) by (simp add: L_def)
  then obtain s1 where s1: "loop L 0 pre initState = Ok s1"
    and r1: "loop L (0 + length pre) (dl # sec @ post) s1 = Ok st"
    by (rule loop_OkE)
  from r1 obtain s2 where s2: "step L (0 + length pre) s1 dl = Ok s2"
    and r2: "loop L (Suc (0 + length pre)) (sec @ post) s2 = Ok st"
    by (rule loop_ConsE)
  from r2 obtain s3 where s3: "loop L (Suc (0 + length pre)) sec s2 = Ok s3"
    and r3: "loop L (Suc (0 + length pre) + length sec) post s3 = Ok st"
    by (rule loop_OkE)
  have len1: "length (diffFiles s1) = k"
    using loop_file_count[OF s1] by (simp add: initState_def k_def)
  from s2 assms(3) obtain f0 where f0: "diffFiles s2 = diffFiles s1 @ [f0]"
    "NewName f0 = []" "OrigName f0 = []" "Mode f0 = FileModeModified"
    by (cases rule: step_cases) (auto simp: isDiffLine_def bumped_def)
  have ne2: "diffFiles s2 \<noteq> []" using f0(1) by simp
  from loop_section_fields[OF s3 assms(4) ne2]
  have ne3: "diffFiles s3 \<noteq> []" and bl3: "butlast (diffFiles s3) = diffFiles s1"
    and m3: "Mode (last (diffFiles s3)) = lastSet modeSetBy FileModeModified sec"
    and o3: "OrigName (last (diffFiles s3)) = lastSet origNameSetBy [] sec"
    and n3: "NewName (last (diffFiles s3)) = lastSet newNameSetBy [] sec"
    by (simp_all add: f0)
  have f3: "diffFiles s3 = diffFiles s1 @ [last (diffFiles s3)]"
    using ne3 bl3 by (metis append_butlast_last_id)
  have "\<exists>ys. diffFiles st = diffFiles s3 @ ys"
  proof (cases post)
    case Nil
    with r3 show ?thesis by simp
  next
    case (Cons dl2 post')
    with assms(5) have d2: "isDiffLine dl2" by simp
    from r3 have "loop L (Suc (0 + length pre) + length sec) (dl2 # post') s3 = Ok st"
      by (simp only: Cons)
    then obtain s4 where s4: "step L (Suc (0 + length pre) + length sec) s3 dl2 = Ok s4"
      and r4: "loop L (Suc (Suc (0 + length pre) + length sec)) post' s4 = Ok st"
      by (rule loop_ConsE)
    from step_files[OF s4] d2 obtain f4 where "diffFiles s4 = diffFiles s3 @ [f4]" by auto
    with loop_keeps_earlier_files[OF r4] show ?thesis by auto
  qed
  then obtain ys where "diffFiles st = diffFiles s1 @ last (diffFiles s3) # ys"
    using f3 by (metis append.assoc append_Cons append_Nil)
  then have kl: "k < length (diffFiles st)" and "diffFiles st ! k = last (diffFiles s3)"
    using len1 by (simp_all add: nth_append)
  then have e: "e = last (diffFiles s3)"
    by (simp add: e_def entryAfter_def d k_def)
  have m: "Mode e = lastSet modeSetBy FileModeModified sec"
    and on: "OrigName e = lastSet origNameSetBy [] sec"
    and nn: "NewName e = lastSet newNameSetBy [] sec"
    using m3 o3 n3 by (simp_all add: e)
  have setter: "\<exists>l\<in>set sec. modeSetBy l = Some (Mode e)" if "Mode e \<noteq> FileModeModified"
    using lastSet_mem[of modeSetBy FileModeModified sec] that by (simp add: m)
  have del: "''+++ /dev/null'' \<in> set sec" if "Mode e = FileModeDeleted"
    using setter that by (auto dest: modeSetBy_Deleted)
  have new: "''--- /dev/null'' \<in> set sec" if "Mode e = FileModeNew"
    using setter that by (auto dest: modeSetBy_New)
  have ren: "\<exists>l\<in>set sec. HasPrefix l similarityPrefix" if "Mode e = FileModeRenamed"
    using setter that by (auto dest: modeSetBy_Renamed)
  have nn0: "NewName e = []" if "\<forall>l\<in>set sec. newNameSetBy l = None"
    using lastSet_none[OF that] by (simp add: nn)
  have on0: "OrigName e = []" if "\<forall>l\<in>set sec. origNameSetBy l = None"
    using lastSet_none[OF that] by (simp add: on)
  show ?thesis
    using cnt kl m on nn del new ren nn0 on0
    unfolding e_def[symmetric] L_def[symmetric] k_def[symmetric] d
    by blast
qed

theorem mode_and_names_are_set_by_the_section_witness:
  "\<exists>d. Parse exampleDiff = Ok d
     \<and> Split exampleDiff [NL] =
           [] @ ''diff --git a/file2 b/file2'' # exampleDeleted
              @ (''diff --git a/file4 b/file4'' # exampleNew
                   @ ''diff --git a/old.txt b/new.txt'' # exampleRenamed)
     \<and> Split exampleDiff [NL] =
           (''diff --git a/file2 b/file2'' # exampleDeleted) @ ''diff --git a/file4 b/file4'' # exampleNew
              @ (''diff --git a/old.txt b/new.txt'' # exampleRenamed)
     \<and> Split exampleDiff [NL] =
           (''diff --git a/file2 b/file2'' # exampleDeleted @ ''diff --git a/file4 b/file4'' # exampleNew)
              @ ''diff --git a/old.txt b/new.txt'' # exampleRenamed @ []
     \<and> isDiffLine ''diff --git a/file2 b/file2'' \<and> isDiffLine ''diff --git a/file4 b/file4''
     \<and> isDiffLine ''diff --git a/old.txt b/new.txt''
     \<and> list_all (\<lambda>l. \<not> isDiffLine l) (exampleDeleted @ exampleNew @ exampleRenamed)
     \<and> list_all (\<lambda>l. newNameSetBy l = None) exampleDeleted
     \<and> list_all (\<lambda>l. origNameSetBy l = None) exampleNew
     \<and> length (Files d) = 3
     \<and> map fileModeAndNames (Files d) =
          [(FileModeDeleted, ''file2'', []), (FileModeNew, [], ''file4''),
           (FileModeRenamed, ''old.txt'', ''new.txt'')]
     \<and> ''+++ /dev/null'' \<in> set exampleDeleted \<and> ''--- /dev/null'' \<in> set exampleNew
     \<and> list_ex (\<lambda>l. HasPrefix l similarityPrefix) exampleRenamed"
proof -
  let ?d1 = "''diff --git a/file2 b/file2''"
  let ?d2 = "''diff --git a/file4 b/file4''"
  let ?d3 = "''diff --git a/old.txt b/new.txt''"
  have "map_result (\<lambda>d. ()) (Parse exampleDiff) = Ok ()"
    by code_simp
  then obtain d where d: "Parse exampleDiff = Ok d"
    by (rule map_result_OkE)
  have sp1: "Split exampleDiff [NL] =
      [] @ ?d1 # exampleDeleted @ (?d2 # exampleNew @ ?d3 # exampleRenamed)"
    by code_simp
  have sp2: "Split exampleDiff [NL] =
      (?d1 # exampleDeleted) @ ?d2 # exampleNew @ (?d3 # exampleRenamed)"
    by code_simp
  have sp3: "Split exampleDiff [NL] =
      (?d1 # exampleDeleted @ ?d2 # exampleNew) @ ?d3 # exampleRenamed @ []"
    by code_simp
  have d1: "isDiffLine ?d1" and d2: "isDiffLine ?d2" and d3: "isDiffLine ?d3"
    by code_simp+
  have n1: "list_all (\<lambda>l. \<not> isDiffLine l) exampleDeleted"
    and n2: "list_all (\<lambda>l. \<not> isDiffLine l) exampleNew"
    and n3: "list_all (\<lambda>l. \<not> isDiffLine l) exampleRenamed"
    by code_simp+
  have a1: "list_all (\<lambda>l. newNameSetBy l = None) exampleDeleted"
    and a2: "list_all (\<lambda>l. origNameSetBy l = None) exampleNew"
    by code_simp+
  have k1: "length (filter isDiffLine []) = 0"
    and k2: "length (filter isDiffLine (?d1 # exampleDeleted)) = 1"
    and k3: "length (filter isDiffLine (?d1 # exampleDeleted @ ?d2 # exampleNew)) = 2"
    and k: "length (filter isDiffLine (Split exampleDiff [NL])) = 3"
    by code_simp+
  have p1: "(?d2 # exampleNew @ ?d3 # exampleRenamed) = []
             \<or> isDiffLine (hd (?d2 # exampleNew @ ?d3 # exampleRenamed))"
    using d2 by simp
  have p2: "(?d3 # exampleRenamed) = [] \<or> isDiffLine (hd (?d3 # exampleRenamed))"
    using d3 by simp
  have p3: "([] :: string list) = [] \<or> isDiffLine (hd [])"
    by simp
  have v1: "lastSet modeSetBy FileModeModified exampleDeleted = FileModeDeleted"
    "lastSet origNameSetBy [] exampleDeleted = ''file2''"
    "lastSet newNameSetBy [] exampleDeleted = []"
    by code_simp+
  have v2: "lastSet modeSetBy FileModeModified exampleNew = FileModeNew"
    "lastSet origNameSetBy [] exampleNew = []"
    "lastSet newNameSetBy [] exampleNew = ''file4''"
    by code_simp+
  have v3: "lastSet modeSetBy FileModeModified exampleRenamed = FileModeRenamed"
    "lastSet origNameSetBy [] exampleRenamed = ''old.txt''"
    "lastSet newNameSetBy [] exampleRenamed = ''new.txt''"
    by code_simp+
  note t1 = mode_and_names_are_set_by_the_section[OF d sp1 d1 n1[unfolded list_all_iff] p1,
      unfolded entryAfter_def k1 k v1]
  note t2 = mode_and_names_are_set_by_the_section[OF d sp2 d2 n2[unfolded list_all_iff] p2,
      unfolded entryAfter_def k2 k v2]
  note t3 = mode_and_names_are_set_by_the_section[OF d sp3 d3 n3[unfolded list_all_iff] p3,
      unfolded entryAfter_def k3 k v3]
  from t1 have len: "length (Files d) = 3" by blast
  from t1 have e1: "fileModeAndNames (Files d ! 0) = (FileModeDeleted, ''file2'', [])"
    and m1: "''+++ /dev/null'' \<in> set exampleDeleted"
    by (simp_all add: fileModeAndNames_def)
  from t2 have e2: "fileModeAndNames (Files d ! 1) = (FileModeNew, [], ''file4'')"
    and m2: "''--- /dev/null'' \<in> set exampleNew"
    by (simp_all add: fileModeAndNames_def)
  from t3 have e3: "fileModeAndNames (Files d ! 2) = (FileModeRenamed, ''old.txt'', ''new.txt'')"
    and m3: "\<exists>l\<in>set exampleRenamed. HasPrefix l similarityPrefix"
    by (simp_all add: fileModeAndNames_def)
  have files: "map fileModeAndNames (Files d) =
      [(FileModeDeleted, ''file2'', []), (FileModeNew, [], ''file4''),
       (FileModeRenamed, ''old.txt'', ''new.txt'')]"
    using len e1 e2 e3
    by (auto simp: list_eq_iff_nth_eq less_Suc_eq numeral_3_eq_3 numeral_2_eq_2)
  from d sp1 sp2 sp3 d1 d2 d3 n1 n2 n3 a1 a2 len files m1 m2 m3 show ?thesis
    by (intro exI[of _ d]) (simp add: list_ex_iff)
qed


subsection \<open>C7: binary files\<close>

text \<open>
  C7 (the code at the failing input). For a new binary file, as \<open>git diff\<close> prints
  it, the file's \<open>Mode\<close> is \<open>FileModeModified\<close> and its \<open>OrigName\<close> is \<open>/dev/null\<close>:
  the \<open>Binary files\<close> case has no test for \<open>/dev/null\<close>.
\<close>

theorem binary_new_file_is_modified:
  "map_result (\<lambda>d. map fileModeAndNames (Files d))
     (Parse ''diff --git a/img.png b/img.png\<newline>new file mode 100644\<newline>index 0000000..1234567\<newline>Binary files /dev/null and b/img.png differ\<newline>'')
   = Ok [(FileModeModified, ''/dev/null'', ''img.png'')]"
  by code_simp

subsection \<open>C8: \<open>Changed\<close>\<close>

text \<open>
  C8. For every \<open>Diff\<close>, the map \<open>Changed\<close> returns holds under a name \<open>k\<close> exactly
  the \<open>Number\<close> fields of the lines of mode \<open>Added\<close> in the \<open>NewRange\<close> of the hunks
  of the files whose \<open>NewName\<close> is \<open>k\<close> and whose \<open>Mode\<close> is not \<open>FileModeDeleted\<close>,
  in the order of the files, hunks and lines; a name with no such line is not a key. A
  deleted file contributes nothing.
\<close>

theorem Changed_added_lines_of_kept_files:
  "Changed d k =
     (let ns = concat (map addedNumbers
                 (filter (\<lambda>f. Mode f \<noteq> FileModeDeleted \<and> NewName f = k) (Files d)))
      in if ns = [] then None else Some ns)"
proof -
  have "foldl changedFile Map.empty (Files d) k =
      (if concat (map (\<lambda>f. if Mode f = FileModeDeleted then [] else addedNumbers f)
                    (filter (\<lambda>f. NewName f = k) (Files d))) = [] then Map.empty k
       else Some (entry Map.empty k @
              concat (map (\<lambda>f. if Mode f = FileModeDeleted then [] else addedNumbers f)
                    (filter (\<lambda>f. NewName f = k) (Files d)))))"
    by (rule foldl_append_lookup) (rule changedFile_lookup)
  then show ?thesis
    unfolding Changed_def concat_kept Let_def entry_def by auto
qed

subsection \<open>C9: file name decoding fails soft\<close>

text \<open>
  C9. For every token with a malformed octal escape, wherever in the token the escape
  is, \<open>decodeOctalString\<close> returns the token it was given, unchanged. Decoding cannot
  make \<open>Parse\<close> fail. Once a file entry exists, the body of the loop succeeds on a
  \<open>--- \<close> or \<open>+++ \<close> line whose quoted name has a malformed octal escape, and the name
  of the current file becomes the token between the quotes, after its \<open>a/\<close> or \<open>b/\<close>. It
  succeeds on every line that begins with \<open>--- \<close>, \<open>+++ \<close>, \<open>rename from \<close> or
  \<open>rename to \<close>, and on every \<open>Binary files\<close> line that names exactly two files.
\<close>

theorem filename_decoding_fails_soft:
  "(malformedToken t \<longrightarrow> decodeOctalString t = t)
   \<and> (diffFiles st \<noteq> [] \<and> malformedToken t \<longrightarrow>
        step lines idx st (''--- '' @ [DQ] @ ''a/'' @ t @ [DQ]) =
          Ok ((bumped st)\<lparr>diffFiles := mapLast (\<lambda>f. f\<lparr>OrigName := t\<rparr>) (diffFiles st)\<rparr>)
        \<and> step lines idx st (''+++ '' @ [DQ] @ ''b/'' @ t @ [DQ]) =
          Ok ((bumped st)\<lparr>diffFiles := mapLast (\<lambda>f. f\<lparr>NewName := t\<rparr>) (diffFiles st)\<rparr>))
   \<and> (diffFiles st \<noteq> [] \<and> nameLine l \<longrightarrow> (\<exists>st'. step lines idx st l = Ok st'))
   \<and> (diffFiles st \<noteq> [] \<and> HasPrefix b ''Binary files ''
        \<and> length (Split (TrimSuffix (drop 13 b) '' differ'') '' and '') = 2 \<longrightarrow>
        (\<exists>st'. step lines idx st b = Ok st'))"
proof -
  have a: "decodeOctalString t = t" if "malformedToken t"
    using that by (rule decodeOctalString_malformedToken)
  have o: "step lines idx st (''--- '' @ [DQ] @ ''a/'' @ t @ [DQ]) =
          Ok ((bumped st)\<lparr>diffFiles := mapLast (\<lambda>f. f\<lparr>OrigName := t\<rparr>) (diffFiles st)\<rparr>)"
    if "diffFiles st \<noteq> []" "malformedToken t"
  proof -
    have "parseFileName (drop 4 (''--- '' @ [DQ] @ ''a/'' @ t @ [DQ])) = t"
      using parseFileName_quoted_a[of t] a[OF that(2)] by simp
    then show ?thesis
      using step_oldFile[OF that(1), of "''--- '' @ [DQ] @ ''a/'' @ t @ [DQ]" lines idx]
      by (simp add: HasPrefix_def)
  qed
  have n: "step lines idx st (''+++ '' @ [DQ] @ ''b/'' @ t @ [DQ]) =
          Ok ((bumped st)\<lparr>diffFiles := mapLast (\<lambda>f. f\<lparr>NewName := t\<rparr>) (diffFiles st)\<rparr>)"
    if "diffFiles st \<noteq> []" "malformedToken t"
  proof -
    have "parseFileName (drop 4 (''+++ '' @ [DQ] @ ''b/'' @ t @ [DQ])) = t"
      using parseFileName_quoted_b[of t] a[OF that(2)] by simp
    then show ?thesis
      using step_newFile[OF that(1), of "''+++ '' @ [DQ] @ ''b/'' @ t @ [DQ]" lines idx]
      by (simp add: HasPrefix_def)
  qed
  have c: "\<exists>st'. step lines idx st b = Ok st'"
    if "diffFiles st \<noteq> []" "HasPrefix b ''Binary files ''"
      "length (Split (TrimSuffix (drop 13 b) '' differ'') '' and '') = 2"
    using step_binary[OF that(1,2), of lines idx] that(3) by (simp add: Let_def)
  show ?thesis
    using a o n c step_nameLine_Ok by blast
qed

theorem filename_decoding_fails_soft_witness:
  "malformedToken (BSL # ''344'' @ BSL # ''34.md'')
   \<and> decodeOctalString (BSL # ''344'' @ BSL # ''34.md'') = BSL # ''344'' @ BSL # ''34.md''
   \<and> diffFiles exampleState \<noteq> []
   \<and> step [] 0 exampleState (''+++ '' @ [DQ] @ ''b/'' @ (BSL # ''344'' @ BSL # ''34.md'') @ [DQ]) =
        Ok (exampleState\<lparr>diffPosCount := 1,
              diffFiles := [(hd (diffFiles exampleState))\<lparr>NewName := BSL # ''344'' @ BSL # ''34.md''\<rparr>]\<rparr>)
   \<and> nameLine (''rename to '' @ [DQ] @ ''file-'' @ BSL # ''34.md'' @ [DQ])
   \<and> (\<exists>st'. step [] 0 exampleState (''rename to '' @ [DQ] @ ''file-'' @ BSL # ''34.md'' @ [DQ])
              = Ok st')
   \<and> HasPrefix ''Binary files a/img.png and b/img.png differ'' ''Binary files ''
   \<and> length (Split (TrimSuffix (drop 13 ''Binary files a/img.png and b/img.png differ'')
                       '' differ'') '' and '') = 2
   \<and> (\<exists>st'. step [] 0 exampleState ''Binary files a/img.png and b/img.png differ'' = Ok st')"
proof -
  let ?t = "BSL # ''344'' @ BSL # ''34.md''"
  let ?l = "''rename to '' @ [DQ] @ ''file-'' @ BSL # ''34.md'' @ [DQ]"
  let ?b = "''Binary files a/img.png and b/img.png differ''"
  have h1: "malformedToken ?t" by code_simp
  have h3: "diffFiles exampleState \<noteq> []" by (simp add: exampleState_def)
  have h4: "nameLine ?l" by code_simp
  have h6: "HasPrefix ?b ''Binary files ''"
    by code_simp
  have h7: "length (Split (TrimSuffix (drop 13 ?b) '' differ'') '' and '') = 2"
    by code_simp
  note t = filename_decoding_fails_soft[of ?t exampleState "[]" 0 ?l ?b]
  from t h1 have d: "decodeOctalString ?t = ?t" by blast
  from t h1 h3 have "step [] 0 exampleState (''+++ '' @ [DQ] @ ''b/'' @ ?t @ [DQ]) =
          Ok ((bumped exampleState)\<lparr>diffFiles := mapLast (\<lambda>f. f\<lparr>NewName := ?t\<rparr>) (diffFiles exampleState)\<rparr>)"
    by blast
  then have s: "step [] 0 exampleState (''+++ '' @ [DQ] @ ''b/'' @ ?t @ [DQ]) =
        Ok (exampleState\<lparr>diffPosCount := 1,
              diffFiles := [(hd (diffFiles exampleState))\<lparr>NewName := ?t\<rparr>]\<rparr>)"
    by (simp add: exampleState_def bumped_def incr_def maxInt_def)
  from t h3 h4 have e1: "\<exists>st'. step [] 0 exampleState ?l = Ok st'" by blast
  from t h3 h6 h7 have e2: "\<exists>st'. step [] 0 exampleState ?b = Ok st'" by blast
  from h1 d h3 s h4 e1 h6 h7 e2 show ?thesis by blast
qed

subsection \<open>C10: name lines inside a hunk\<close>

text \<open>
  C10. \<open>step\<close> is the body of the loop of \<open>Parse\<close>, run on every physical line. In
  every state with a current file, also while a hunk is active, a line that begins with
  \<open>--- \<close> (and is not \<open>--- /dev/null\<close>) overwrites \<open>OrigName\<close> of the current file
  with \<open>parseFileName\<close> of the rest of the line, and a line that begins with \<open>+++ \<close>
  (and is not \<open>+++ /dev/null\<close>) overwrites \<open>NewName\<close>; nothing else changes but the
  counter of physical lines: no line is appended to the hunk and the line counters
  stay as they are.
\<close>

theorem name_line_in_hunk_overwrites_name:
  "diffFiles st \<noteq> [] \<Longrightarrow>
   (HasPrefix l ''--- '' \<and> l \<noteq> ''--- /dev/null'' \<longrightarrow>
      step lines idx st l =
        Ok ((bumped st)\<lparr>diffFiles :=
              mapLast (\<lambda>f. f\<lparr>OrigName := parseFileName (drop 4 l)\<rparr>) (diffFiles st)\<rparr>))
   \<and> (HasPrefix l ''+++ '' \<and> l \<noteq> ''+++ /dev/null'' \<longrightarrow>
      step lines idx st l =
        Ok ((bumped st)\<lparr>diffFiles :=
              mapLast (\<lambda>f. f\<lparr>NewName := parseFileName (drop 4 l)\<rparr>) (diffFiles st)\<rparr>))"
  using step_oldFile step_newFile by blast

theorem name_line_in_hunk_overwrites_name_witness:
  "diffFiles exampleState \<noteq> [] \<and> inHunk exampleState
   \<and> HasPrefix ''--- drop the table'' ''--- '' \<and> ''--- drop the table'' \<noteq> ''--- /dev/null''
   \<and> step [] 0 exampleState ''--- drop the table'' =
        Ok (exampleState\<lparr>diffPosCount := 1,
              diffFiles := [(hd (diffFiles exampleState))\<lparr>OrigName := ''drop the table''\<rparr>]\<rparr>)"
proof -
  have h1: "diffFiles exampleState \<noteq> []" by (simp add: exampleState_def)
  have h2: "HasPrefix ''--- drop the table'' ''--- ''" by code_simp
  have h3: "parseFileName (drop 4 ''--- drop the table'') = ''drop the table''" by code_simp
  from name_line_in_hunk_overwrites_name[OF h1, of "''--- drop the table''" "[]" 0] h2
  have "step [] 0 exampleState ''--- drop the table'' =
        Ok ((bumped exampleState)\<lparr>diffFiles :=
              mapLast (\<lambda>f. f\<lparr>OrigName := parseFileName (drop 4 ''--- drop the table'')\<rparr>) (diffFiles exampleState)\<rparr>)"
    by simp
  then show ?thesis
    using h1 h2 unfolding h3 by (simp add: exampleState_def bumped_def incr_def maxInt_def)
qed

end
